theory Spec2Isabelle
  imports Complex_Main "HOL-Library.AList" "HOL-Library.Multiset"
begin

section \<open>Common data\<close>

text \<open>
  Python exceptions that the embedded functions can raise are values of \<open>py_error\<close>;
  a fallible function returns \<open>py_error + 'a\<close> with \<open>Inl\<close> for the exception.
  Python floats and \<open>datetime\<close> values are modelled by real numbers (timestamps are
  seconds on a common time axis), Python integers by \<open>int\<close>.
\<close>

datatype py_error =
  ZeroDivisionError | KeyError | ValueError | LinAlgError | IndexError | QueueFull

text \<open>A box \<open>[x1, y1, x2, y2]\<close> as the source unpacks it.\<close>

record bbox =
  x1 :: real
  y1 :: real
  x2 :: real
  y2 :: real

section \<open>tracking/engine.py: iou\<close>

definition py_truediv :: "real \<Rightarrow> real \<Rightarrow> py_error + real" where
  "py_truediv a b = (if b = 0 then Inl ZeroDivisionError else Inr (a / b))"

definition iou :: "bbox \<Rightarrow> bbox \<Rightarrow> py_error + real" where
  "iou bbox1 bbox2 =
    (let x1_i = max (x1 bbox1) (x1 bbox2);
         y1_i = max (y1 bbox1) (y1 bbox2);
         x2_i = min (x2 bbox1) (x2 bbox2);
         y2_i = min (y2 bbox1) (y2 bbox2)
     in if x2_i < x1_i \<or> y2_i < y1_i then Inr 0
        else
          let intersection = (x2_i - x1_i) * (y2_i - y1_i);
              area1 = (x2 bbox1 - x1 bbox1) * (y2 bbox1 - y1 bbox1);
              area2 = (x2 bbox2 - x1 bbox2) * (y2 bbox2 - y1 bbox2);
              union = area1 + area2 - intersection
          in if union > 0 then py_truediv intersection union else Inr 0)"

text \<open>The geometric notions the statement about \<open>iou\<close> is phrased with.\<close>

definition box_area :: "bbox \<Rightarrow> real" where
  "box_area b = (x2 b - x1 b) * (y2 b - y1 b)"

definition overlap_empty :: "bbox \<Rightarrow> bbox \<Rightarrow> bool" where
  "overlap_empty a b \<longleftrightarrow>
     min (x2 a) (x2 b) < max (x1 a) (x1 b) \<or> min (y2 a) (y2 b) < max (y1 a) (y1 b)"

definition inter_area :: "bbox \<Rightarrow> bbox \<Rightarrow> real" where
  "inter_area a b =
     (min (x2 a) (x2 b) - max (x1 a) (x1 b)) * (min (y2 a) (y2 b) - max (y1 a) (y1 b))"

definition union_area :: "bbox \<Rightarrow> bbox \<Rightarrow> real" where
  "union_area a b = box_area a + box_area b - inter_area a b"

definition well_formed_box :: "bbox \<Rightarrow> bool" where
  "well_formed_box b \<longleftrightarrow> x1 b < x2 b \<and> y1 b < y2 b"

section \<open>Python containers and control\<close>

text \<open>
  A Python \<open>dict\<close> keeps its keys in insertion order, and the tracker relies on that
  order (rows of the IoU matrix). It is modelled by an association list: assignment
  replaces the value of a present key in place and appends a new key at the end
  (\<open>AList.update\<close>), \<open>d[k]\<close> and \<open>del d[k]\<close> raise \<open>KeyError\<close> on a missing key.
\<close>

type_synonym ('k, 'v) dict = "('k \<times> 'v) list"

definition keys :: "('k, 'v) dict \<Rightarrow> 'k list" where
  "keys d = map fst d"

definition dict_getitem :: "('k, 'v) dict \<Rightarrow> 'k \<Rightarrow> py_error + 'v" where
  "dict_getitem d k = (case map_of d k of None \<Rightarrow> Inl KeyError | Some v \<Rightarrow> Inr v)"

definition dict_delitem :: "('k, 'v) dict \<Rightarrow> 'k \<Rightarrow> py_error + ('k, 'v) dict" where
  "dict_delitem d k = (if k \<in> set (keys d) then Inr (AList.delete k d) else Inl KeyError)"

definition list_getitem :: "'a list \<Rightarrow> nat \<Rightarrow> py_error + 'a" where
  "list_getitem xs i = (if i < length xs then Inr (xs ! i) else Inl IndexError)"

text \<open>A \<open>for\<close> loop over a list whose body may raise: the first exception ends the loop.\<close>

fun for_loop :: "('a \<Rightarrow> 's \<Rightarrow> py_error + 's) \<Rightarrow> 'a list \<Rightarrow> 's \<Rightarrow> py_error + 's" where
  "for_loop body [] s = Inr s"
| "for_loop body (x # xs) s =
     (case body x s of Inl err \<Rightarrow> Inl err | Inr s' \<Rightarrow> for_loop body xs s')"

fun sequence_err :: "(py_error + 'a) list \<Rightarrow> py_error + 'a list" where
  "sequence_err [] = Inr []"
| "sequence_err (r # rs) =
     (case r of Inl err \<Rightarrow> Inl err
      | Inr v \<Rightarrow> (case sequence_err rs of Inl err \<Rightarrow> Inl err | Inr vs \<Rightarrow> Inr (v # vs)))"

text \<open>
  \<open>max(xs, key=f)\<close>: the first element whose key is maximal; \<open>ValueError\<close> on an empty
  sequence.
\<close>

fun max_from :: "('a \<Rightarrow> 'k::linorder) \<Rightarrow> 'a \<Rightarrow> 'a list \<Rightarrow> 'a" where
  "max_from f best [] = best"
| "max_from f best (x # xs) = max_from f (if f best < f x then x else best) xs"

definition py_max :: "('a \<Rightarrow> 'k::linorder) \<Rightarrow> 'a list \<Rightarrow> py_error + 'a" where
  "py_max f xs = (case xs of [] \<Rightarrow> Inl ValueError | x # rest \<Rightarrow> Inr (max_from f x rest))"

text \<open>
  \<open>xs.sort(key=f, reverse=True)\<close>: CPython reverses the list, sorts it stably in
  ascending key order and reverses the result, which keeps elements of equal key in their
  original order. \<open>sort_key\<close> is a stable insertion sort.
\<close>

definition sort_reverse :: "('a \<Rightarrow> 'k::linorder) \<Rightarrow> 'a list \<Rightarrow> 'a list" where
  "sort_reverse f xs = rev (sort_key f (rev xs))"

section \<open>core/events.py\<close>

datatype TrackState = TENTATIVE | CONFIRMED | LOST | DELETED

datatype VehicleState = OUTSIDE | APPROACHING | INSIDE | EXITING | LOGGED

datatype VehicleType = CAR | MOTORCYCLE | BUS | TRUCK | UNKNOWN

text \<open>\<open>VehicleType(name)\<close>: the enum member with that value, \<open>ValueError\<close> otherwise.\<close>

definition VehicleType_of :: "string \<Rightarrow> py_error + VehicleType" where
  "VehicleType_of name =
     (if name = ''car'' then Inr CAR
      else if name = ''motorcycle'' then Inr MOTORCYCLE
      else if name = ''bus'' then Inr BUS
      else if name = ''truck'' then Inr TRUCK
      else if name = ''unknown'' then Inr UNKNOWN
      else Inl ValueError)"

record Detection =
  det_bbox :: bbox
  det_confidence :: real
  class_id :: int
  class_name :: string

text \<open>An entry of \<open>Track.plate_readings\<close>: the dict \<open>{text, confidence, timestamp}\<close>.\<close>

record reading =
  r_text :: string
  r_confidence :: real
  r_timestamp :: real

record Track =
  track_id :: int
  camera_id :: int
  state :: TrackState
  vehicle_type :: VehicleType
  first_seen :: real
  last_seen :: real
  track_bbox :: bbox
  track_confidence :: real
  color :: "string option"
  velocity :: "(real \<times> real) option"
  hits :: int
  age :: int
  time_since_update :: int
  plate_readings :: "reading list"
  plate_text :: "string option"
  plate_confidence :: "real option"
  plate_locked :: bool
  vehicle_state :: VehicleState
  entry_time :: "real option"
  exit_time :: "real option"

text \<open>
  The methods of \<open>Track\<close>. Each call of \<open>datetime.now()\<close> in the source is an argument
  \<open>now\<close> of the model.
\<close>

definition update_bbox :: "bbox \<Rightarrow> real \<Rightarrow> real \<Rightarrow> Track \<Rightarrow> Track" where
  "update_bbox box conf now t =
     t\<lparr>track_bbox := box, track_confidence := conf, last_seen := now,
       hits := hits t + 1, time_since_update := 0\<rparr>"

definition add_plate_reading :: "string \<Rightarrow> real \<Rightarrow> real \<Rightarrow> Track \<Rightarrow> Track" where
  "add_plate_reading txt conf now t =
     (if \<not> plate_locked t
      then t\<lparr>plate_readings :=
               plate_readings t @ [\<lparr>r_text = txt, r_confidence = conf, r_timestamp = now\<rparr>]\<rparr>
      else t)"

definition finalize_plate :: "string \<Rightarrow> real \<Rightarrow> Track \<Rightarrow> Track" where
  "finalize_plate txt conf t =
     t\<lparr>plate_text := Some txt, plate_confidence := Some conf, plate_locked := True\<rparr>"

section \<open>tracking/engine.py: KalmanFilter\<close>

text \<open>
  numpy arrays are lists of reals (vectors) and lists of rows (matrices); the shapes are
  fixed by the constructor. \<open>np.linalg.inv\<close> is a library routine and a parameter of the
  model: it returns the inverse or raises \<open>LinAlgError\<close>.
\<close>

type_synonym vec = "real list"
type_synonym mat = "real list list"

definition np_eye :: "nat \<Rightarrow> nat \<Rightarrow> mat" where
  "np_eye n m = map (\<lambda>i. map (\<lambda>j. if i = j then 1 else 0) [0..<m]) [0..<n]"

definition mat_scale :: "mat \<Rightarrow> real \<Rightarrow> mat" where
  "mat_scale A c = map (map (\<lambda>a. a * c)) A"

definition mat_setitem :: "mat \<Rightarrow> nat \<Rightarrow> nat \<Rightarrow> real \<Rightarrow> mat" where
  "mat_setitem A i j v = A[i := (A ! i)[j := v]]"

definition dot :: "vec \<Rightarrow> vec \<Rightarrow> real" where
  "dot u v = sum_list (map2 (*) u v)"

definition matvec :: "mat \<Rightarrow> vec \<Rightarrow> vec" where
  "matvec A v = map (\<lambda>row. dot row v) A"

definition matmul :: "mat \<Rightarrow> mat \<Rightarrow> mat" where
  "matmul A B = map (\<lambda>row. map (\<lambda>col. dot row col) (transpose B)) A"

definition vec_add :: "vec \<Rightarrow> vec \<Rightarrow> vec" where
  "vec_add u v = map2 (+) u v"

definition vec_sub :: "vec \<Rightarrow> vec \<Rightarrow> vec" where
  "vec_sub u v = map2 (-) u v"

definition mat_add :: "mat \<Rightarrow> mat \<Rightarrow> mat" where
  "mat_add A B = map2 vec_add A B"

definition mat_sub :: "mat \<Rightarrow> mat \<Rightarrow> mat" where
  "mat_sub A B = map2 vec_sub A B"

record KalmanFilter =
  kf_state :: vec
  kf_P :: mat
  kf_F :: mat
  kf_H :: mat
  kf_Q :: mat
  kf_R :: mat

definition KalmanFilter_init :: "bbox \<Rightarrow> KalmanFilter" where
  "KalmanFilter_init box =
     \<lparr>kf_state = [(x1 box + x2 box) / 2, (y1 box + y2 box) / 2, x2 box - x1 box,
                  y2 box - y1 box, 0, 0, 0, 0],
      kf_P = mat_scale (np_eye 8 8) 10,
      kf_F = mat_setitem (mat_setitem (mat_setitem (mat_setitem (np_eye 8 8) 0 4 1) 1 5 1)
               2 6 1) 3 7 1,
      kf_H = np_eye 4 8,
      kf_Q = mat_scale (np_eye 8 8) (1 / 10),
      kf_R = mat_scale (np_eye 4 4) 1\<rparr>"

definition get_bbox :: "KalmanFilter \<Rightarrow> bbox" where
  "get_bbox kf =
     (let cx = kf_state kf ! 0; cy = kf_state kf ! 1; w = kf_state kf ! 2; h = kf_state kf ! 3
      in \<lparr>x1 = cx - w / 2, y1 = cy - h / 2, x2 = cx + w / 2, y2 = cy + h / 2\<rparr>)"

definition get_velocity :: "KalmanFilter \<Rightarrow> real \<times> real" where
  "get_velocity kf = (kf_state kf ! 4, kf_state kf ! 5)"

text \<open>\<open>predict\<close> mutates the filter; the predicted box is \<open>get_bbox\<close> of the result.\<close>

definition predict :: "KalmanFilter \<Rightarrow> KalmanFilter" where
  "predict kf =
     kf\<lparr>kf_state := matvec (kf_F kf) (kf_state kf),
        kf_P := mat_add (matmul (matmul (kf_F kf) (kf_P kf)) (transpose (kf_F kf))) (kf_Q kf)\<rparr>"

definition KalmanFilter_update ::
  "(mat \<Rightarrow> py_error + mat) \<Rightarrow> bbox \<Rightarrow> KalmanFilter \<Rightarrow> py_error + KalmanFilter" where
  "KalmanFilter_update np_linalg_inv box kf =
     (let measurement = [(x1 box + x2 box) / 2, (y1 box + y2 box) / 2, x2 box - x1 box,
                         y2 box - y1 box];
          y = vec_sub measurement (matvec (kf_H kf) (kf_state kf));
          S = mat_add (matmul (matmul (kf_H kf) (kf_P kf)) (transpose (kf_H kf))) (kf_R kf)
      in case np_linalg_inv S of
           Inl err \<Rightarrow> Inl err
         | Inr S_inv \<Rightarrow>
             let K = matmul (matmul (kf_P kf) (transpose (kf_H kf))) S_inv
             in Inr (kf\<lparr>kf_state := vec_add (kf_state kf) (matvec K y),
                       kf_P := matmul (mat_sub (np_eye 8 8) (matmul K (kf_H kf))) (kf_P kf)\<rparr>))"

section \<open>tracking/engine.py: TrackingEngine\<close>

record TrackingConfig =
  max_lost_frames :: int
  min_hits :: int
  iou_threshold :: real
  max_age :: int

record TrackingEngine =
  te_config :: TrackingConfig
  te_camera_id :: int
  tracks :: "(int, Track) dict"
  next_track_id :: int
  kalman_filters :: "(int, KalmanFilter) dict"
  total_tracks :: int
  active_tracks :: int

definition TrackingEngine_init :: "TrackingConfig \<Rightarrow> int \<Rightarrow> TrackingEngine" where
  "TrackingEngine_init cfg cam =
     \<lparr>te_config = cfg, te_camera_id = cam, tracks = [], next_track_id = 1,
      kalman_filters = [], total_tracks = 0, active_tracks = 0\<rparr>"

text \<open>
  What one call of \<open>update\<close> takes from outside the repository: the matrix inverse, the
  order in which \<open>list(s)\<close> enumerates the two Python sets of \<open>_match\<close> (the language
  leaves it open, so it is a parameter: a set is kept as a duplicate-free list and
  \<open>list(s)\<close> rearranges it), and the clock readings of \<open>datetime.now()\<close> in
  \<open>Track.update_bbox\<close> (per matched track id) and \<open>_create_track\<close> (per detection index).
\<close>

record update_env =
  np_linalg_inv :: "mat \<Rightarrow> py_error + mat"
  list_of_det_set :: "nat list \<Rightarrow> nat list"
  list_of_track_set :: "int list \<Rightarrow> int list"
  now_update_bbox :: "int \<Rightarrow> real"
  now_create_track :: "nat \<Rightarrow> real"

text \<open>The prediction loop at the head of \<open>update\<close>, over \<open>kalman_filters.items()\<close>.\<close>

definition predicted_track :: "bbox \<Rightarrow> Track \<Rightarrow> Track" where
  "predicted_track predicted_bbox t =
     t\<lparr>track_bbox := predicted_bbox, age := age t + 1,
       time_since_update := time_since_update t + 1\<rparr>"

definition predict_step :: "int \<times> KalmanFilter \<Rightarrow> TrackingEngine \<Rightarrow> TrackingEngine" where
  "predict_step item e =
     (let track_id = fst item;
          kf = predict (snd item);
          predicted_bbox = get_bbox kf;
          e1 = e\<lparr>kalman_filters := AList.update track_id kf (kalman_filters e)\<rparr>
      in if track_id \<in> set (keys (tracks e1))
         then e1\<lparr>tracks := AList.map_entry track_id (predicted_track predicted_bbox)
                           (tracks e1)\<rparr>
         else e1)"

definition predict_all :: "TrackingEngine \<Rightarrow> TrackingEngine" where
  "predict_all e = fold predict_step (kalman_filters e) e"

text \<open>\<open>_match\<close>: the IoU matrix, the candidate cells, the sort and the greedy selection.\<close>

definition iou_matrix :: "(int, Track) dict \<Rightarrow> Detection list \<Rightarrow> py_error + real list list" where
  "iou_matrix trks detections =
     sequence_err (map (\<lambda>track_id.
        case dict_getitem trks track_id of
          Inl err \<Rightarrow> Inl err
        | Inr track \<Rightarrow>
            sequence_err (map (\<lambda>detection. iou (track_bbox track) (det_bbox detection))
              detections))
       (keys trks))"

definition candidate_cells :: "real \<Rightarrow> real list list \<Rightarrow> nat \<Rightarrow> nat \<Rightarrow> (nat \<times> nat \<times> real) list" where
  "candidate_cells threshold M n m =
     concat (map (\<lambda>i. concat (map (\<lambda>j. if M ! i ! j > threshold then [(i, j, M ! i ! j)] else [])
       [0..<m])) [0..<n])"

fun greedy_select ::
  "int list \<Rightarrow> (nat \<times> nat \<times> real) list \<Rightarrow> (int \<times> nat) list \<times> nat list \<times> int list
     \<Rightarrow> (int \<times> nat) list \<times> nat list \<times> int list" where
  "greedy_select track_ids [] acc = acc"
| "greedy_select track_ids ((i, j, v) # ms) (matched, unmatched_dets, unmatched_tracks) =
     (let track_id = track_ids ! i
      in if track_id \<in> set unmatched_tracks \<and> j \<in> set unmatched_dets
         then greedy_select track_ids ms
                (matched @ [(track_id, j)], removeAll j unmatched_dets,
                 removeAll track_id unmatched_tracks)
         else greedy_select track_ids ms (matched, unmatched_dets, unmatched_tracks))"

definition match ::
  "update_env \<Rightarrow> TrackingEngine \<Rightarrow> Detection list
     \<Rightarrow> py_error + ((int \<times> nat) list \<times> nat list \<times> int list)" where
  "match env e detections =
     (if tracks e = [] \<or> detections = []
      then Inr ([], [0..<length detections], keys (tracks e))
      else
        let track_ids = keys (tracks e)
        in case iou_matrix (tracks e) detections of
             Inl err \<Rightarrow> Inl err
           | Inr M \<Rightarrow>
               let matches = candidate_cells (iou_threshold (te_config e)) M
                               (length track_ids) (length detections);
                   sorted_matches = sort_reverse (\<lambda>c. snd (snd c)) matches;
                   res = greedy_select track_ids sorted_matches
                           ([], [0..<length detections], remdups track_ids)
               in Inr (fst res, list_of_det_set env (fst (snd res)),
                       list_of_track_set env (snd (snd res))))"

text \<open>
  The body of the loop over the matched pairs. \<open>matched_track\<close> is what the body does
  to the track once the Kalman filter is corrected: \<open>update_bbox\<close>, the vehicle type and
  velocity, and the two state transitions.
\<close>

definition matched_track ::
  "TrackingConfig \<Rightarrow> Detection \<Rightarrow> KalmanFilter \<Rightarrow> VehicleType \<Rightarrow> real \<Rightarrow> Track \<Rightarrow> Track" where
  "matched_track cfg detection kf vt now track =
     (let t1 = update_bbox (get_bbox kf) (det_confidence detection) now track;
          t2 = t1\<lparr>vehicle_type := vt, velocity := Some (get_velocity kf)\<rparr>;
          t3 = (if state t2 = TENTATIVE \<and> hits t2 \<ge> min_hits cfg
                then t2\<lparr>state := CONFIRMED\<rparr> else t2);
          t4 = (if state t3 = LOST then t3\<lparr>state := CONFIRMED\<rparr> else t3)
      in t4)"

definition update_matched ::
  "update_env \<Rightarrow> Detection list \<Rightarrow> int \<times> nat \<Rightarrow> TrackingEngine \<Rightarrow> py_error + TrackingEngine" where
  "update_matched env detections pair e =
     (let track_id = fst pair; det_idx = snd pair
      in case list_getitem detections det_idx of Inl err \<Rightarrow> Inl err | Inr detection \<Rightarrow>
         case dict_getitem (tracks e) track_id of Inl err \<Rightarrow> Inl err | Inr track \<Rightarrow>
         case dict_getitem (kalman_filters e) track_id of Inl err \<Rightarrow> Inl err | Inr kf0 \<Rightarrow>
         case KalmanFilter_update (np_linalg_inv env) (det_bbox detection) kf0 of
           Inl err \<Rightarrow> Inl err | Inr kf \<Rightarrow>
         case VehicleType_of (class_name detection) of Inl err \<Rightarrow> Inl err | Inr vt \<Rightarrow>
           Inr (e\<lparr>kalman_filters := AList.update track_id kf (kalman_filters e),
                  tracks := AList.update track_id
                    (matched_track (te_config e) detection kf vt
                       (now_update_bbox env track_id) track) (tracks e)\<rparr>))"

text \<open>\<open>_create_track\<close>: \<open>fresh_track\<close> is the \<open>Track\<close> it constructs.\<close>

definition fresh_track :: "int \<Rightarrow> int \<Rightarrow> VehicleType \<Rightarrow> real \<Rightarrow> Detection \<Rightarrow> Track" where
  "fresh_track tid cam vt now detection =
     \<lparr>track_id = tid, camera_id = cam, state = TENTATIVE, vehicle_type = vt,
      first_seen = now, last_seen = now, track_bbox = det_bbox detection,
      track_confidence = det_confidence detection, color = None, velocity = None,
      hits = 1, age = 0, time_since_update = 0, plate_readings = [], plate_text = None,
      plate_confidence = None, plate_locked = False, vehicle_state = OUTSIDE,
      entry_time = None, exit_time = None\<rparr>"

definition create_track :: "Detection \<Rightarrow> real \<Rightarrow> TrackingEngine \<Rightarrow> py_error + TrackingEngine" where
  "create_track detection now e =
     (let tid = next_track_id e
      in case VehicleType_of (class_name detection) of
           Inl err \<Rightarrow> Inl err
         | Inr vt \<Rightarrow>
             Inr (e\<lparr>next_track_id := tid + 1,
                    tracks := AList.update tid
                      (fresh_track tid (te_camera_id e) vt now detection) (tracks e),
                    kalman_filters :=
                      AList.update tid (KalmanFilter_init (det_bbox detection))
                        (kalman_filters e),
                    total_tracks := total_tracks e + 1\<rparr>))"

definition create_unmatched ::
  "update_env \<Rightarrow> Detection list \<Rightarrow> nat \<Rightarrow> TrackingEngine \<Rightarrow> py_error + TrackingEngine" where
  "create_unmatched env detections det_idx e =
     (case list_getitem detections det_idx of
        Inl err \<Rightarrow> Inl err
      | Inr detection \<Rightarrow> create_track detection (now_create_track env det_idx) e)"

text \<open>
  The body of the loop over the unmatched tracks; \<open>unmatched_track\<close> is what it does to
  the track.
\<close>

definition unmatched_track :: "TrackingConfig \<Rightarrow> Track \<Rightarrow> Track" where
  "unmatched_track cfg track =
     (let t1 = (if state track = CONFIRMED then track\<lparr>state := LOST\<rparr> else track);
          t2 = (if time_since_update t1 > max_lost_frames cfg
                then t1\<lparr>state := DELETED\<rparr> else t1)
      in t2)"

definition handle_unmatched :: "int \<Rightarrow> TrackingEngine \<Rightarrow> py_error + TrackingEngine" where
  "handle_unmatched tid e =
     (case dict_getitem (tracks e) tid of
        Inl err \<Rightarrow> Inl err
      | Inr track \<Rightarrow>
          Inr (e\<lparr>tracks := AList.update tid (unmatched_track (te_config e) track) (tracks e)\<rparr>))"

definition remove_deleted :: "int \<Rightarrow> TrackingEngine \<Rightarrow> py_error + TrackingEngine" where
  "remove_deleted tid e =
     (case dict_delitem (tracks e) tid of
        Inl err \<Rightarrow> Inl err
      | Inr trks \<Rightarrow>
          (case dict_delitem (kalman_filters e) tid of
             Inl err \<Rightarrow> Inl err
           | Inr kfs \<Rightarrow> Inr (e\<lparr>tracks := trks, kalman_filters := kfs\<rparr>)))"

text \<open>
  \<open>update\<close> returns the list of active tracks. The source returns references to the
  \<open>Track\<close> objects held in \<open>self.tracks\<close>, which the caller goes on to mutate; the model
  returns their keys, and the caller reads and writes the tracks through the engine.
\<close>

definition update ::
  "update_env \<Rightarrow> Detection list \<Rightarrow> int \<Rightarrow> TrackingEngine
     \<Rightarrow> py_error + (int list \<times> TrackingEngine)" where
  "update env detections frame_height e0 =
     (let e1 = predict_all e0
      in case match env e1 detections of Inl err \<Rightarrow> Inl err
         | Inr (matched, unmatched_dets, unmatched_tracks) \<Rightarrow>
      case for_loop (update_matched env detections) matched e1 of Inl err \<Rightarrow> Inl err
         | Inr e2 \<Rightarrow>
      case for_loop (create_unmatched env detections) unmatched_dets e2 of Inl err \<Rightarrow> Inl err
         | Inr e3 \<Rightarrow>
      case for_loop handle_unmatched unmatched_tracks e3 of Inl err \<Rightarrow> Inl err
         | Inr e4 \<Rightarrow>
      let deleted_ids = map fst (filter (\<lambda>item. state (snd item) = DELETED) (tracks e4))
      in case for_loop remove_deleted deleted_ids e4 of Inl err \<Rightarrow> Inl err
         | Inr e5 \<Rightarrow>
      let active = map fst (filter (\<lambda>item. state (snd item) \<in> {CONFIRMED, LOST}) (tracks e5))
      in Inr (active, e5\<lparr>active_tracks := int (length active)\<rparr>))"

section \<open>The association step as the specification words it\<close>

text \<open>
  The intersection over union of two boxes, 0 when the overlap is empty or the union area
  is not positive.
\<close>

definition iou_of :: "bbox \<Rightarrow> bbox \<Rightarrow> real" where
  "iou_of a b =
     (if overlap_empty a b \<or> union_area a b \<le> 0 then 0 else inter_area a b / union_area a b)"

text \<open>The cells whose value exceeds the threshold, in row-major order.\<close>

definition spec_cells :: "real \<Rightarrow> (nat \<Rightarrow> nat \<Rightarrow> real) \<Rightarrow> nat \<Rightarrow> nat \<Rightarrow> (nat \<times> nat) list" where
  "spec_cells threshold val n m =
     concat (map (\<lambda>i. map (\<lambda>j. (i, j)) (filter (\<lambda>j. val i j > threshold) [0..<m])) [0..<n])"

text \<open>Sorting by descending value, cells of equal value kept in their order.\<close>

definition spec_sort_desc :: "('a \<Rightarrow> real) \<Rightarrow> 'a list \<Rightarrow> 'a list" where
  "spec_sort_desc f xs = sort_key (\<lambda>x. - f x) xs"

text \<open>
  Greedy selection: a cell is accepted if and only if its row and its column are both
  unconsumed, and then consumes them.
\<close>

fun spec_greedy :: "(nat \<times> nat) list \<Rightarrow> nat set \<Rightarrow> nat set \<Rightarrow> (nat \<times> nat) list" where
  "spec_greedy [] rows cols = []"
| "spec_greedy ((i, j) # cells) rows cols =
     (if i \<notin> rows \<and> j \<notin> cols
      then (i, j) # spec_greedy cells (insert i rows) (insert j cols)
      else spec_greedy cells rows cols)"

definition spec_matching :: "real \<Rightarrow> Track list \<Rightarrow> Detection list \<Rightarrow> (nat \<times> nat) list" where
  "spec_matching threshold trks detections =
     (let val = (\<lambda>i j. iou_of (track_bbox (trks ! i)) (det_bbox (detections ! j)));
          cells = spec_cells threshold val (length trks) (length detections)
      in spec_greedy (spec_sort_desc (\<lambda>c. val (fst c) (snd c)) cells) {} {})"

section \<open>Example inputs\<close>

definition example_track :: "int \<Rightarrow> bbox \<Rightarrow> TrackState \<Rightarrow> int \<Rightarrow> Track" where
  "example_track tid box st tsu =
     \<lparr>track_id = tid, camera_id = 0, state = st, vehicle_type = CAR, first_seen = 0,
      last_seen = 0, track_bbox = box, track_confidence = 1 / 2, color = None,
      velocity = None, hits = 3, age = 5, time_since_update = tsu, plate_readings = [],
      plate_text = None, plate_confidence = None, plate_locked = False,
      vehicle_state = OUTSIDE, entry_time = None, exit_time = None\<rparr>"

definition example_detection :: "bbox \<Rightarrow> Detection" where
  "example_detection box =
     \<lparr>det_bbox = box, det_confidence = 9 / 10, class_id = 2, class_name = ''car''\<rparr>"

definition example_env :: update_env where
  "example_env =
     \<lparr>np_linalg_inv = (\<lambda>S. Inl LinAlgError), list_of_det_set = (\<lambda>xs. xs),
      list_of_track_set = (\<lambda>xs. xs), now_update_bbox = (\<lambda>tid. 100),
      now_create_track = (\<lambda>i. 100)\<rparr>"

definition example_config :: TrackingConfig where
  "example_config = \<lparr>max_lost_frames = 30, min_hits = 3, iou_threshold = 3 / 10, max_age = 60\<rparr>"

definition example_engine :: TrackingEngine where
  "example_engine =
     \<lparr>te_config = example_config, te_camera_id = 0,
      tracks = [(1, example_track 1 \<lparr>x1 = 0, y1 = 0, x2 = 10, y2 = 10\<rparr> CONFIRMED 0),
                (2, example_track 2 \<lparr>x1 = 20, y1 = 0, x2 = 30, y2 = 10\<rparr> CONFIRMED 0)],
      next_track_id = 3,
      kalman_filters = [(1, KalmanFilter_init \<lparr>x1 = 0, y1 = 0, x2 = 10, y2 = 10\<rparr>),
                        (2, KalmanFilter_init \<lparr>x1 = 20, y1 = 0, x2 = 30, y2 = 10\<rparr>)],
      total_tracks = 2, active_tracks = 2\<rparr>"

definition example_detections :: "Detection list" where
  "example_detections =
     [example_detection \<lparr>x1 = 21, y1 = 0, x2 = 31, y2 = 10\<rparr>,
      example_detection \<lparr>x1 = 1, y1 = 0, x2 = 11, y2 = 10\<rparr>,
      example_detection \<lparr>x1 = 50, y1 = 50, x2 = 60, y2 = 60\<rparr>]"

section \<open>ocr/engine.py\<close>

text \<open>
  \<open>levenshtein_distance\<close>: the row-by-row dynamic programme of the source. The inner loop
  appends to \<open>current_row\<close> and reads \<open>previous_row[j]\<close>, \<open>previous_row[j + 1]\<close> and
  \<open>current_row[j]\<close>; both rows have \<open>len(s2) + 1\<close> entries, so the reads are in range.
\<close>

definition lev_inner_step :: "char \<Rightarrow> string \<Rightarrow> int list \<Rightarrow> nat \<Rightarrow> int list \<Rightarrow> int list" where
  "lev_inner_step c1 s2 previous_row j current_row =
     (let insertions = previous_row ! (j + 1) + 1;
          deletions = current_row ! j + 1;
          substitutions = previous_row ! j + (if c1 \<noteq> s2 ! j then 1 else 0)
      in current_row @ [min insertions (min deletions substitutions)])"

definition lev_outer_step :: "string \<Rightarrow> nat \<times> char \<Rightarrow> int list \<Rightarrow> int list" where
  "lev_outer_step s2 ic previous_row =
     fold (lev_inner_step (snd ic) s2 previous_row) [0..<length s2] [int (fst ic) + 1]"

definition levenshtein_rows :: "string \<Rightarrow> string \<Rightarrow> int" where
  "levenshtein_rows s1 s2 =
     (if length s2 = 0 then int (length s1)
      else last (fold (lev_outer_step s2) (enumerate 0 s1) (map int [0..<length s2 + 1])))"

definition levenshtein_distance :: "string \<Rightarrow> string \<Rightarrow> int" where
  "levenshtein_distance s1 s2 =
     (if length s1 < length s2 then levenshtein_rows s2 s1 else levenshtein_rows s1 s2)"

record OCRConfig =
  enabled :: bool
  language :: string
  throttle_frames :: int
  min_plate_confidence :: real
  max_concurrent :: int
  timeout :: real
  fusion_min_samples :: int
  max_samples :: int

text \<open>\<open>last_ocr_time\<close> is a dict read by key only, so a map models it.\<close>

record OCREngine =
  oe_config :: OCRConfig
  is_loaded :: bool
  last_ocr_time :: "int \<rightharpoonup> real"
  active_ocr_count :: int
  total_ocr_calls :: int
  successful_reads :: int
  failed_reads :: int

definition can_process :: "real \<Rightarrow> int \<Rightarrow> OCREngine \<Rightarrow> bool" where
  "can_process now tid eng =
     (if \<not> enabled (oe_config eng) \<or> \<not> is_loaded eng then False
      else if active_ocr_count eng \<ge> max_concurrent (oe_config eng) then False
      else case last_ocr_time eng tid of
             None \<Rightarrow> True
           | Some last_time \<Rightarrow>
               let elapsed = now - last_time;
                   min_interval = real_of_int (throttle_frames (oe_config eng)) / 20
               in if elapsed < min_interval then False else True)"

text \<open>
  What the image pipeline of \<open>recognize_plate\<close> yields (\<open>_extract_roi\<close>,
  \<open>_preprocess_plate\<close>, the PaddleOCR call and \<open>_clean_plate_text\<close> work on pixels and are
  outside the model): no region of interest, no usable text (an empty OCR result, fewer
  than three characters, or an exception), or a plate text with its mean confidence.
\<close>

datatype ocr_outcome = RoiEmpty | NoPlate | Plate string real

text \<open>
  \<open>recognize_plate\<close>: the gate, the counters, and the \<open>finally\<close> clause that decrements
  \<open>active_ocr_count\<close>. \<open>now_gate\<close> and \<open>now_admit\<close> are the clock readings of the gate and
  of the assignment to \<open>last_ocr_time\<close>.
\<close>

definition recognize_plate ::
  "real \<Rightarrow> real \<Rightarrow> ocr_outcome \<Rightarrow> int \<Rightarrow> OCREngine \<Rightarrow> (string \<times> real) option \<times> OCREngine" where
  "recognize_plate now_gate now_admit outcome tid eng =
     (if \<not> can_process now_gate tid eng then (None, eng)
      else
        let eng1 = eng\<lparr>active_ocr_count := active_ocr_count eng + 1,
                       last_ocr_time := (last_ocr_time eng)(tid \<mapsto> now_admit),
                       total_ocr_calls := total_ocr_calls eng + 1\<rparr>;
            res = (case outcome of
                     RoiEmpty \<Rightarrow> (None, eng1)
                   | NoPlate \<Rightarrow> (None, eng1\<lparr>failed_reads := failed_reads eng1 + 1\<rparr>)
                   | Plate txt conf \<Rightarrow>
                       (Some (txt, conf),
                        eng1\<lparr>successful_reads := successful_reads eng1 + 1\<rparr>))
        in (fst res, (snd res)\<lparr>active_ocr_count := active_ocr_count (snd res) - 1\<rparr>))"

text \<open>
  \<open>fuse_readings\<close>. The result is either one of the readings (the dict itself) or a new
  dict \<open>{text, confidence, num_samples}\<close>.
\<close>

datatype fuse_result = BestReading reading | Consensus string real int

fun result_text :: "fuse_result \<Rightarrow> string" where
  "result_text (BestReading r) = r_text r"
| "result_text (Consensus txt conf n) = txt"

fun result_confidence :: "fuse_result \<Rightarrow> real" where
  "result_confidence (BestReading r) = r_confidence r"
| "result_confidence (Consensus txt conf n) = conf"

text \<open>
  The grouping loop: a reading joins the first group whose first member is within
  distance 2, or opens a new group at the end.
\<close>

fun place_reading :: "reading \<Rightarrow> reading list list \<Rightarrow> py_error + reading list list" where
  "place_reading r [] = Inr [[r]]"
| "place_reading r (g # gs) =
     (case list_getitem g 0 of
        Inl err \<Rightarrow> Inl err
      | Inr first \<Rightarrow>
          if levenshtein_distance (r_text r) (r_text first) \<le> 2 then Inr ((g @ [r]) # gs)
          else (case place_reading r gs of Inl err \<Rightarrow> Inl err | Inr gs' \<Rightarrow> Inr (g # gs')))"

definition group_readings :: "reading list \<Rightarrow> py_error + reading list list" where
  "group_readings readings = for_loop place_reading readings []"

text \<open>
  \<open>Counter(texts)\<close> counts in first-appearance order, and \<open>most_common(1)\<close> takes the
  first entry of maximal count (CPython: \<open>heapq.nlargest(1, ...)\<close> is \<open>max\<close>).
\<close>

definition counter :: "'a list \<Rightarrow> ('a, nat) dict" where
  "counter xs = fold (\<lambda>x c. AList.map_default x 1 (\<lambda>n. n + 1) c) xs []"

definition most_common1 :: "'a list \<Rightarrow> py_error + 'a" where
  "most_common1 xs = (case py_max snd (counter xs) of Inl err \<Rightarrow> Inl IndexError
                      | Inr entry \<Rightarrow> Inr (fst entry))"

definition np_mean :: "real list \<Rightarrow> real" where
  "np_mean xs = sum_list xs / real (length xs)"

definition fuse_readings :: "OCRConfig \<Rightarrow> reading list \<Rightarrow> py_error + fuse_result option" where
  "fuse_readings cfg readings =
     (if readings = [] then Inr None
      else if int (length readings) < fusion_min_samples cfg
      then (case py_max r_confidence readings of Inl err \<Rightarrow> Inl err
            | Inr r \<Rightarrow> Inr (Some (BestReading r)))
      else
        case group_readings readings of Inl err \<Rightarrow> Inl err | Inr groups \<Rightarrow>
        case py_max length groups of Inl err \<Rightarrow> Inl err | Inr largest_group \<Rightarrow>
          if int (length largest_group) < fusion_min_samples cfg
          then (case py_max r_confidence readings of Inl err \<Rightarrow> Inl err
                | Inr r \<Rightarrow> Inr (Some (BestReading r)))
          else
            case most_common1 (map r_text largest_group) of Inl err \<Rightarrow> Inl err
            | Inr most_common \<Rightarrow>
                let avg_conf = np_mean (map r_confidence
                                 (filter (\<lambda>r. r_text r = most_common) largest_group))
                in Inr (Some (Consensus most_common avg_conf (int (length largest_group)))))"

section \<open>database/manager.py: the producer side of the durable writer\<close>

text \<open>The event dict that the event engine builds and the writer stores.\<close>

record event =
  ev_type :: string
  ev_camera_id :: int
  ev_track_id :: int
  ev_vehicle_type :: string
  ev_plate_text :: "string option"
  ev_plate_confidence :: "real option"
  ev_timestamp :: real
  ev_entry_time :: "real option"
  ev_exit_time :: "real option"
  ev_duration :: "real option"
  ev_confidence :: real
  ev_color :: "string option"
  ev_bbox :: bbox

record track_row =
  tr_camera_id :: int
  tr_track_id :: int
  tr_first_seen :: real
  tr_last_seen :: real

record camera_row =
  cam_id :: int
  cam_name :: string
  cam_source :: string
  cam_status :: string

text \<open>A queued record \<open>{type, data}\<close>.\<close>

datatype write_op = Insert_event event | Insert_track track_row | Insert_camera camera_row

text \<open>
  \<open>queue.Queue(maxsize=1000)\<close>: \<open>put_nowait\<close> appends, or raises \<open>Full\<close> when the queue
  already holds \<open>maxsize\<close> items. It never waits.
\<close>

definition write_queue_maxsize :: nat where
  "write_queue_maxsize = 1000"

definition put_nowait :: "nat \<Rightarrow> 'a \<Rightarrow> 'a list \<Rightarrow> py_error + 'a list" where
  "put_nowait maxsize item q = (if length q \<ge> maxsize then Inl QueueFull else Inr (q @ [item]))"

text \<open>
  The state of \<open>DatabaseManager\<close> that the producers and \<open>get_stats\<close> touch: the queue, the
  two counters, and the rows of the \<open>events\<close> table that \<open>get_stats\<close> counts.
\<close>

record DatabaseManager =
  write_queue :: "write_op list"
  total_writes :: int
  failed_writes :: int
  events_table :: "event list"

text \<open>
  The three producers. The \<open>except\<close> clause only logs a warning, so a full queue leaves
  the manager as it was.
\<close>

definition enqueue :: "write_op \<Rightarrow> DatabaseManager \<Rightarrow> DatabaseManager" where
  "enqueue wop db =
     (case put_nowait write_queue_maxsize wop (write_queue db) of
        Inl err \<Rightarrow> db
      | Inr q \<Rightarrow> db\<lparr>write_queue := q\<rparr>)"

definition insert_event :: "event \<Rightarrow> DatabaseManager \<Rightarrow> DatabaseManager" where
  "insert_event ev db = enqueue (Insert_event ev) db"

definition insert_track :: "track_row \<Rightarrow> DatabaseManager \<Rightarrow> DatabaseManager" where
  "insert_track row db = enqueue (Insert_track row) db"

definition insert_camera :: "camera_row \<Rightarrow> DatabaseManager \<Rightarrow> DatabaseManager" where
  "insert_camera row db = enqueue (Insert_camera row) db"

text \<open>\<open>get_stats\<close>: every counter the manager exposes.\<close>

record db_stats =
  st_total_events :: nat
  st_total_entries :: nat
  st_total_exits :: nat
  st_total_writes :: int
  st_failed_writes :: int
  st_queue_size :: nat

definition get_stats :: "DatabaseManager \<Rightarrow> db_stats" where
  "get_stats db =
     \<lparr>st_total_events = length (events_table db),
      st_total_entries = length (filter (\<lambda>e. ev_type e = ''entry'') (events_table db)),
      st_total_exits = length (filter (\<lambda>e. ev_type e = ''exit'') (events_table db)),
      st_total_writes = total_writes db,
      st_failed_writes = failed_writes db,
      st_queue_size = length (write_queue db)\<rparr>"

definition example_event :: event where
  "example_event =
     \<lparr>ev_type = ''entry'', ev_camera_id = 0, ev_track_id = 1, ev_vehicle_type = ''car'',
      ev_plate_text = Some ''ABC1234'', ev_plate_confidence = Some (9 / 10),
      ev_timestamp = 100, ev_entry_time = None, ev_exit_time = None, ev_duration = None,
      ev_confidence = 1 / 2, ev_color = None,
      ev_bbox = \<lparr>x1 = 0, y1 = 0, x2 = 10, y2 = 10\<rparr>\<rparr>"

definition full_database :: DatabaseManager where
  "full_database =
     \<lparr>write_queue = replicate 1000 (Insert_event example_event), total_writes = 0,
      failed_writes = 0, events_table = []\<rparr>"

definition example_ocr_config :: OCRConfig where
  "example_ocr_config =
     \<lparr>enabled = True, language = ''en'', throttle_frames = 10, min_plate_confidence = 6 / 10,
      max_concurrent = 2, timeout = 1 / 2, fusion_min_samples = 3, max_samples = 5\<rparr>"

definition busy_ocr_engine :: OCREngine where
  "busy_ocr_engine =
     \<lparr>oe_config = example_ocr_config, is_loaded = True, last_ocr_time = Map.empty,
      active_ocr_count = 2, total_ocr_calls = 7, successful_reads = 4, failed_reads = 1\<rparr>"

section \<open>main.py: the OCR step of the processing loop\<close>

text \<open>
  The clock readings of one pass of the OCR step over one track: \<open>can_process\<close> as the
  loop calls it, \<open>can_process\<close> again inside \<open>recognize_plate\<close>, the assignment to
  \<open>last_ocr_time\<close>, and the timestamp of the stored reading.
\<close>

record ocr_clock =
  clk_check :: real
  clk_gate :: real
  clk_admit :: real
  clk_reading :: real

text \<open>
  The body of the loop \<open>for track in tracks\<close> of step 3 of \<open>_process_frame\<close>.
  \<open>cfg\<close> is \<open>self.config.ocr\<close>; a result dict is never empty, so \<open>if result\<close> and
  \<open>if fused\<close> test for \<open>None\<close>.
\<close>

definition ocr_track ::
  "OCRConfig \<Rightarrow> ocr_clock \<Rightarrow> ocr_outcome \<Rightarrow> Track \<Rightarrow> OCREngine
     \<Rightarrow> py_error + (Track \<times> OCREngine)" where
  "ocr_track cfg clk outcome track eng =
     (if state track = CONFIRMED \<and> \<not> plate_locked track
      then
        if can_process (clk_check clk) (track_id track) eng
        then
          let res = recognize_plate (clk_gate clk) (clk_admit clk) outcome (track_id track) eng
          in case fst res of
               None \<Rightarrow> Inr (track, snd res)
             | Some result \<Rightarrow>
                 let t1 = add_plate_reading (fst result) (snd result) (clk_reading clk) track
                 in if int (length (plate_readings t1)) \<ge> fusion_min_samples cfg
                    then
                      case fuse_readings (oe_config (snd res)) (plate_readings t1) of
                        Inl err \<Rightarrow> Inl err
                      | Inr None \<Rightarrow> Inr (t1, snd res)
                      | Inr (Some fused) \<Rightarrow>
                          Inr (finalize_plate (result_text fused) (result_confidence fused) t1,
                               snd res)
                    else Inr (t1, snd res)
        else Inr (track, eng)
      else Inr (track, eng))"

section \<open>Fusion as the specification words it\<close>

text \<open>The position of the first appearance of \<open>x\<close> in a sequence.\<close>

definition first_pos :: "'a list \<Rightarrow> 'a \<Rightarrow> nat" where
  "first_pos xs x = length (takeWhile (\<lambda>y. y \<noteq> x) xs)"

text \<open>
  \<open>x\<close> is the most frequent element of \<open>xs\<close>, ties in frequency broken by first
  appearance.
\<close>

definition most_frequent_first :: "'a \<Rightarrow> 'a list \<Rightarrow> bool" where
  "most_frequent_first x xs \<longleftrightarrow>
     x \<in> set xs
     \<and> (\<forall>y \<in> set xs. count_list xs y \<le> count_list xs x)
     \<and> (\<forall>y \<in> set xs. count_list xs y = count_list xs x \<longrightarrow> first_pos xs x \<le> first_pos xs y)"

text \<open>
  \<open>r\<close> is the reading of highest confidence, the earliest one when several share it.
\<close>

definition highest_confidence :: "reading \<Rightarrow> reading list \<Rightarrow> bool" where
  "highest_confidence r readings \<longleftrightarrow>
     (\<exists>before after. readings = before @ r # after
        \<and> (\<forall>q \<in> set before. r_confidence q < r_confidence r)
        \<and> (\<forall>q \<in> set after. r_confidence q \<le> r_confidence r))"

definition mean :: "real list \<Rightarrow> real" where
  "mean xs = sum_list xs / real (length xs)"

definition idle_ocr_engine :: OCREngine where
  "idle_ocr_engine = busy_ocr_engine\<lparr>active_ocr_count := 0\<rparr>"

definition example_clock :: ocr_clock where
  "example_clock = \<lparr>clk_check = 100, clk_gate = 100, clk_admit = 100, clk_reading = 100\<rparr>"

definition example_reading :: "string \<Rightarrow> real \<Rightarrow> real \<Rightarrow> reading" where
  "example_reading t c ts = \<lparr>r_text = t, r_confidence = c, r_timestamp = ts\<rparr>"

definition example_box :: bbox where
  "example_box = \<lparr>x1 = 0, y1 = 0, x2 = 10, y2 = 10\<rparr>"

definition disagreeing_track :: Track where
  "disagreeing_track =
     (example_track 1 example_box CONFIRMED 0)
       \<lparr>plate_readings := [example_reading ''ABC1234'' (9 / 10) 50,
                           example_reading ''XYZ0000'' (1 / 2) 60]\<rparr>"

definition disagreeing_readings :: "reading list" where
  "disagreeing_readings =
     [example_reading ''ABC1234'' (9 / 10) 50, example_reading ''XYZ0000'' (1 / 2) 60,
      example_reading ''QRS5678'' (7 / 10) 100]"

definition agreeing_track :: Track where
  "agreeing_track =
     (example_track 1 example_box CONFIRMED 0)
       \<lparr>plate_readings := [example_reading ''ABC1234'' (9 / 10) 50,
                           example_reading ''ABC1Z34'' (1 / 2) 60,
                           example_reading ''XYZ0000'' (8 / 10) 70,
                           example_reading ''ABC1234'' (7 / 10) 80]\<rparr>"

definition agreeing_readings :: "reading list" where
  "agreeing_readings =
     [example_reading ''ABC1234'' (9 / 10) 50, example_reading ''ABC1Z34'' (1 / 2) 60,
      example_reading ''XYZ0000'' (8 / 10) 70, example_reading ''ABC1234'' (7 / 10) 80,
      example_reading ''ABC1234'' (8 / 10) 100]"

section \<open>events/engine.py\<close>

record EventConfig =
  entry_y_threshold :: real
  exit_y_threshold :: real
  min_dwell_time :: real
  dedup_window :: int
  require_plate_for_entry :: bool
  require_plate_for_exit :: bool

text \<open>\<open>track_states\<close> and \<open>recent_plates\<close> are dicts read and written by key.\<close>

record EventEngine =
  ee_config :: EventConfig
  ee_camera_id :: int
  track_states :: "int \<rightharpoonup> VehicleState"
  recent_plates :: "string \<rightharpoonup> real"
  total_entries :: int
  total_exits :: int

definition EventEngine_init :: "EventConfig \<Rightarrow> int \<Rightarrow> EventEngine" where
  "EventEngine_init cfg cam =
     \<lparr>ee_config = cfg, ee_camera_id = cam, track_states = Map.empty,
      recent_plates = Map.empty, total_entries = 0, total_exits = 0\<rparr>"

text \<open>
  The clock readings of one call of \<open>process_track\<close>, in the order the source takes
  them: the dwell time, the duplicate check, the timestamp of the event, and the time
  stored in the deduplication cache.
\<close>

record event_clock =
  t_dwell :: real
  t_dup :: real
  t_event :: real
  t_cache :: real

definition VehicleType_value :: "VehicleType \<Rightarrow> string" where
  "VehicleType_value v =
     (case v of CAR \<Rightarrow> ''car'' | MOTORCYCLE \<Rightarrow> ''motorcycle'' | BUS \<Rightarrow> ''bus''
      | TRUCK \<Rightarrow> ''truck'' | UNKNOWN \<Rightarrow> ''unknown'')"

text \<open>
  \<open>if not track.plate_text\<close> holds for \<open>None\<close> and for the empty string: \<open>truthy_plate\<close>
  is the plate text that passes the test.
\<close>

definition truthy_plate :: "Track \<Rightarrow> string option" where
  "truthy_plate track =
     (case plate_text track of None \<Rightarrow> None | Some p \<Rightarrow> if p = [] then None else Some p)"

definition is_duplicate_entry :: "real \<Rightarrow> Track \<Rightarrow> EventEngine \<Rightarrow> bool" where
  "is_duplicate_entry now track ee =
     (case truthy_plate track of
        None \<Rightarrow> False
      | Some p \<Rightarrow>
          (case recent_plates ee p of
             None \<Rightarrow> False
           | Some last_time \<Rightarrow>
               let elapsed = now - last_time
               in if elapsed < real_of_int (dedup_window (ee_config ee)) then True else False))"

definition is_duplicate_exit :: "real \<Rightarrow> Track \<Rightarrow> EventEngine \<Rightarrow> bool" where
  "is_duplicate_exit now track ee = is_duplicate_entry now track ee"

definition update_dedup_cache :: "real \<Rightarrow> Track \<Rightarrow> EventEngine \<Rightarrow> EventEngine" where
  "update_dedup_cache now track ee =
     (case truthy_plate track of
        None \<Rightarrow> ee
      | Some p \<Rightarrow> ee\<lparr>recent_plates := (recent_plates ee)(p \<mapsto> now)\<rparr>)"

definition create_entry_event :: "event_clock \<Rightarrow> Track \<Rightarrow> EventEngine \<Rightarrow> event \<times> EventEngine" where
  "create_entry_event clk track ee =
     (\<lparr>ev_type = ''entry'', ev_camera_id = ee_camera_id ee, ev_track_id = track_id track,
       ev_vehicle_type = VehicleType_value (vehicle_type track),
       ev_plate_text = plate_text track, ev_plate_confidence = plate_confidence track,
       ev_timestamp = t_event clk, ev_entry_time = None, ev_exit_time = None,
       ev_duration = None, ev_confidence = track_confidence track, ev_color = color track,
       ev_bbox = track_bbox track\<rparr>,
      update_dedup_cache (t_cache clk) track ee)"

definition create_exit_event :: "event_clock \<Rightarrow> Track \<Rightarrow> EventEngine \<Rightarrow> event \<times> EventEngine" where
  "create_exit_event clk track ee =
     (let entry_time = first_seen track;
          exit_time = t_event clk;
          duration = exit_time - entry_time
      in (\<lparr>ev_type = ''exit'', ev_camera_id = ee_camera_id ee, ev_track_id = track_id track,
           ev_vehicle_type = VehicleType_value (vehicle_type track),
           ev_plate_text = plate_text track, ev_plate_confidence = plate_confidence track,
           ev_timestamp = exit_time, ev_entry_time = Some entry_time,
           ev_exit_time = Some exit_time, ev_duration = Some duration,
           ev_confidence = track_confidence track, ev_color = color track,
           ev_bbox = track_bbox track\<rparr>,
          update_dedup_cache (t_cache clk) track ee))"

text \<open>
  \<open>process_track\<close> returns the event (or \<open>None\<close>), and mutates the track's
  \<open>vehicle_state\<close> and the engine.
\<close>

definition process_track ::
  "event_clock \<Rightarrow> Track \<Rightarrow> int \<Rightarrow> EventEngine \<Rightarrow> event option \<times> Track \<times> EventEngine" where
  "process_track clk track frame_height ee =
     (let center_y = (y1 (track_bbox track) + y2 (track_bbox track)) / 2;
          normalized_y = (if frame_height > 0 then center_y / real_of_int frame_height else 0);
          current_state = (case track_states ee (track_id track) of
                             None \<Rightarrow> OUTSIDE | Some st \<Rightarrow> st);
          res =
            (case current_state of
               OUTSIDE \<Rightarrow>
                 if normalized_y > entry_y_threshold (ee_config ee)
                 then (APPROACHING, None, ee) else (current_state, None, ee)
             | APPROACHING \<Rightarrow>
                 let dwell_time = t_dwell clk - first_seen track
                 in if dwell_time \<ge> min_dwell_time (ee_config ee)
                    then
                      if require_plate_for_entry (ee_config ee) \<and> \<not> plate_locked track
                      then (current_state, None, ee)
                      else if \<not> is_duplicate_entry (t_dup clk) track ee
                      then
                        let created = create_entry_event clk track ee
                        in (INSIDE, Some (fst created),
                            (snd created)\<lparr>total_entries := total_entries (snd created) + 1\<rparr>)
                      else (current_state, None, ee)
                    else (current_state, None, ee)
             | INSIDE \<Rightarrow>
                 if normalized_y > exit_y_threshold (ee_config ee)
                 then (EXITING, None, ee) else (current_state, None, ee)
             | EXITING \<Rightarrow>
                 if time_since_update track > 5
                 then
                   if require_plate_for_exit (ee_config ee) \<and> \<not> plate_locked track
                   then (current_state, None, ee)
                   else if \<not> is_duplicate_exit (t_dup clk) track ee
                   then
                     let created = create_exit_event clk track ee
                     in (LOGGED, Some (fst created),
                         (snd created)\<lparr>total_exits := total_exits (snd created) + 1\<rparr>)
                   else (current_state, None, ee)
                 else (current_state, None, ee)
             | LOGGED \<Rightarrow> (current_state, None, ee));
          new_state = fst res;
          ev = fst (snd res);
          ee1 = snd (snd res)
      in if new_state \<noteq> current_state
         then (ev, track\<lparr>vehicle_state := new_state\<rparr>,
               ee1\<lparr>track_states := (track_states ee1)(track_id track \<mapsto> new_state)\<rparr>)
         else (ev, track, ee1))"

definition cleanup_old_entries :: "real \<Rightarrow> EventEngine \<Rightarrow> EventEngine" where
  "cleanup_old_entries now ee =
     (let cutoff = now - real_of_int (dedup_window (ee_config ee) * 2)
      in ee\<lparr>recent_plates :=
              (\<lambda>plate. case recent_plates ee plate of
                          None \<Rightarrow> None
                        | Some ts \<Rightarrow> if ts < cutoff then None else Some ts)\<rparr>)"

text \<open>
  A run of one camera's event engine: calls of \<open>process_track\<close> and of
  \<open>cleanup_old_entries\<close> in any order, each with its clock readings. \<open>run_engine\<close>
  collects the events emitted, in order.
\<close>

datatype engine_call = Process_track event_clock Track int | Cleanup real

fun clock_readings :: "engine_call \<Rightarrow> real list" where
  "clock_readings (Process_track clk track h) = [t_dwell clk, t_dup clk, t_event clk, t_cache clk]"
| "clock_readings (Cleanup now) = [now]"

fun run_engine :: "engine_call list \<Rightarrow> EventEngine \<Rightarrow> event list \<times> EventEngine" where
  "run_engine [] ee = ([], ee)"
| "run_engine (Process_track clk track h # calls) ee =
     (let res = process_track clk track h ee;
          rest = run_engine calls (snd (snd res))
      in ((case fst res of None \<Rightarrow> [] | Some ev \<Rightarrow> [ev]) @ fst rest, snd rest))"
| "run_engine (Cleanup now # calls) ee = run_engine calls (cleanup_old_entries now ee)"

definition same_plate_entries :: "event \<Rightarrow> event \<Rightarrow> bool" where
  "same_plate_entries a b \<longleftrightarrow>
     ev_type a = ''entry'' \<and> ev_type b = ''entry'' \<and> ev_plate_text a = ev_plate_text b
     \<and> ev_plate_text a \<noteq> None \<and> ev_plate_text a \<noteq> Some []"

definition dedup_inv :: "real \<Rightarrow> real \<Rightarrow> event list \<Rightarrow> EventEngine \<Rightarrow> bool" where
  "dedup_inv w T evs ee \<longleftrightarrow>
     (\<forall>e \<in> set evs. \<forall>p. ev_type e = ''entry'' \<and> ev_plate_text e = Some p \<and> p \<noteq> [] \<longrightarrow>
        ev_timestamp e \<le> T
        \<and> (case recent_plates ee p of
             None \<Rightarrow> ev_timestamp e + w \<le> T
           | Some t \<Rightarrow> ev_timestamp e \<le> t))"

definition spaced :: "real \<Rightarrow> event list \<Rightarrow> bool" where
  "spaced w evs \<longleftrightarrow>
     sorted_wrt (\<lambda>a b. same_plate_entries a b \<longrightarrow> w \<le> ev_timestamp b - ev_timestamp a) evs"

definition example_event_config :: EventConfig where
  "example_event_config =
     \<lparr>entry_y_threshold = 6 / 10, exit_y_threshold = 9 / 10, min_dwell_time = 1,
      dedup_window = 60, require_plate_for_entry = False, require_plate_for_exit = True\<rparr>"

definition approaching_engine :: EventEngine where
  "approaching_engine =
     \<lparr>ee_config = example_event_config, ee_camera_id = 0,
      track_states = [1 \<mapsto> APPROACHING, 2 \<mapsto> APPROACHING],
      recent_plates = Map.empty, total_entries = 0, total_exits = 0\<rparr>"

definition plated_track :: "int \<Rightarrow> Track" where
  "plated_track tid =
     (example_track tid example_box CONFIRMED 0)
       \<lparr>plate_text := Some ''ABC1234'', plate_confidence := Some (9 / 10),
        plate_locked := True\<rparr>"

definition tick :: "real \<Rightarrow> event_clock" where
  "tick t = \<lparr>t_dwell = t, t_dup = t, t_event = t, t_cache = t\<rparr>"

definition example_calls :: "engine_call list" where
  "example_calls =
     [Process_track (tick 10) (plated_track 1) 720,
      Process_track (tick 20) (plated_track 2) 720,
      Cleanup 30,
      Process_track (tick 80) (plated_track 2) 720]"

definition cached_engine :: EventEngine where
  "cached_engine = snd (snd (process_track (tick 10) (plated_track 1) 720 approaching_engine))"

section \<open>main.py: \<open>_process_frame\<close>\<close>

text \<open>
  The per-camera components of \<open>ANPRPipeline\<close> are dicts read with \<open>get\<close>;
  \<open>pl_ocr_config\<close> is \<open>self.config.ocr\<close>.
\<close>

record Pipeline =
  pl_ocr_config :: OCRConfig
  trackers :: "int \<rightharpoonup> TrackingEngine"
  event_engines :: "int \<rightharpoonup> EventEngine"
  ocr_engines :: "int \<rightharpoonup> OCREngine"
  database :: DatabaseManager

text \<open>
  What one call of \<open>_process_frame\<close> takes from outside: the detector's answer for the
  frame, the frame height, the environment of the tracker update, and for each track
  (by key) the outcome of the OCR pipeline on it and the clock readings of its OCR step and
  of its \<open>process_track\<close> call.
\<close>

record frame_env =
  fe_detections :: "Detection list"
  fe_frame_height :: int
  fe_update :: update_env
  fe_ocr_outcome :: "int \<Rightarrow> ocr_outcome"
  fe_ocr_clock :: "int \<Rightarrow> ocr_clock"
  fe_event_clock :: "int \<Rightarrow> event_clock"

text \<open>
  The loops of steps 3 and 4 run over the list that \<open>update\<close> returned. Its members are
  the \<open>Track\<close> objects of the tracker, so a mutation by the loop is a write to the
  tracker's dict under the track's key.
\<close>

definition ocr_loop_body ::
  "OCRConfig \<Rightarrow> frame_env \<Rightarrow> int \<Rightarrow> TrackingEngine \<times> OCREngine
     \<Rightarrow> py_error + (TrackingEngine \<times> OCREngine)" where
  "ocr_loop_body cfg env k s =
     (case dict_getitem (tracks (fst s)) k of
        Inl err \<Rightarrow> Inl err
      | Inr track \<Rightarrow>
          (case ocr_track cfg (fe_ocr_clock env k) (fe_ocr_outcome env k) track (snd s) of
             Inl err \<Rightarrow> Inl err
           | Inr res \<Rightarrow>
               Inr ((fst s)\<lparr>tracks := AList.update k (fst res) (tracks (fst s))\<rparr>, snd res)))"

definition event_loop_body ::
  "frame_env \<Rightarrow> int \<Rightarrow> TrackingEngine \<times> EventEngine \<times> DatabaseManager
     \<Rightarrow> py_error + (TrackingEngine \<times> EventEngine \<times> DatabaseManager)" where
  "event_loop_body env k s =
     (case dict_getitem (tracks (fst s)) k of
        Inl err \<Rightarrow> Inl err
      | Inr track \<Rightarrow>
          let res = process_track (fe_event_clock env k) track (fe_frame_height env)
                      (fst (snd s));
              db = (case fst res of
                      None \<Rightarrow> snd (snd s)
                    | Some ev \<Rightarrow> insert_event ev (snd (snd s)))
          in Inr ((fst s)\<lparr>tracks := AList.update k (fst (snd res)) (tracks (fst s))\<rparr>,
                  snd (snd res), db))"

definition process_frame :: "frame_env \<Rightarrow> int \<Rightarrow> Pipeline \<Rightarrow> py_error + Pipeline" where
  "process_frame env cam p =
     (let detections = fe_detections env
      in if detections = [] then Inr p
         else
           case trackers p cam of
             None \<Rightarrow> Inr p
           | Some tracker \<Rightarrow>
               (case update (fe_update env) detections (fe_frame_height env) tracker of
                  Inl err \<Rightarrow> Inl err
                | Inr upd \<Rightarrow>
                    let active = fst upd;
                        tracker1 = snd upd
                    in case (case ocr_engines p cam of
                               None \<Rightarrow> Inr (tracker1, None)
                             | Some ocr \<Rightarrow>
                                 (case for_loop (ocr_loop_body (pl_ocr_config p) env) active
                                         (tracker1, ocr) of
                                    Inl err \<Rightarrow> Inl err
                                  | Inr s \<Rightarrow> Inr (fst s, Some (snd s)))) of
                         Inl err \<Rightarrow> Inl err
                       | Inr after_ocr \<Rightarrow>
                           let tracker2 = fst after_ocr;
                               p1 = (case snd after_ocr of
                                       None \<Rightarrow> p
                                     | Some ocr \<Rightarrow> p\<lparr>ocr_engines := (ocr_engines p)(cam \<mapsto> ocr)\<rparr>)
                           in case event_engines p cam of
                                None \<Rightarrow> Inr (p1\<lparr>trackers := (trackers p)(cam \<mapsto> tracker2)\<rparr>)
                              | Some ee \<Rightarrow>
                                  (case for_loop (event_loop_body env) active
                                          (tracker2, ee, database p) of
                                     Inl err \<Rightarrow> Inl err
                                   | Inr s \<Rightarrow>
                                       Inr (p1\<lparr>trackers := (trackers p)(cam \<mapsto> fst s),
                                              event_engines :=
                                                (event_engines p)(cam \<mapsto> fst (snd s)),
                                              database := snd (snd s)\<rparr>))))"

section \<open>Well-formed tracker states\<close>

text \<open>
  What holds of a tracker between calls: the keys of a dict are distinct, tracks and
  Kalman filters are created and deleted together, and track ids below \<open>next_track_id\<close>
  are the only ones in use. The initial tracker satisfies it and \<open>update\<close> keeps it.
\<close>

definition wf_engine :: "TrackingEngine \<Rightarrow> bool" where
  "wf_engine e \<longleftrightarrow>
     distinct (keys (tracks e)) \<and> keys (kalman_filters e) = keys (tracks e)
     \<and> list_all (\<lambda>k. k < next_track_id e) (keys (tracks e))"

text \<open>\<open>list(s)\<close> enumerates exactly the members of the set \<open>s\<close>, in some order.\<close>

definition env_ok :: "update_env \<Rightarrow> bool" where
  "env_ok env \<longleftrightarrow>
     (\<forall>xs. set (list_of_det_set env xs) = set xs)
     \<and> (\<forall>xs. set (list_of_track_set env xs) = set xs)"

text \<open>The plate store of a track is the same in \<open>t\<close> and \<open>t'\<close>.\<close>

definition same_plate :: "Track \<Rightarrow> Track \<Rightarrow> bool" where
  "same_plate t t' \<longleftrightarrow>
     plate_readings t' = plate_readings t \<and> plate_text t' = plate_text t
     \<and> plate_confidence t' = plate_confidence t \<and> plate_locked t' = plate_locked t"

text \<open>A locked plate has a text.\<close>

definition lock_inv :: "TrackingEngine \<Rightarrow> bool" where
  "lock_inv e \<longleftrightarrow> list_all (\<lambda>item. plate_locked (snd item) \<longrightarrow> plate_text (snd item) \<noteq> None) (tracks e)"

definition same_frame :: "TrackingEngine \<Rightarrow> TrackingEngine \<Rightarrow> bool" where
  "same_frame e e' \<longleftrightarrow>
     te_config e' = te_config e \<and> te_camera_id e' = te_camera_id e
     \<and> next_track_id e' = next_track_id e \<and> keys (tracks e') = keys (tracks e)
     \<and> keys (kalman_filters e') = keys (kalman_filters e)"

definition tracks_rel :: "(int \<Rightarrow> Track \<Rightarrow> Track \<Rightarrow> bool) \<Rightarrow> TrackingEngine \<Rightarrow> TrackingEngine \<Rightarrow> bool" where
  "tracks_rel R e e' \<longleftrightarrow>
     (\<forall>k t. map_of (tracks e) k = Some t \<longrightarrow> (\<exists>t'. map_of (tracks e') k = Some t' \<and> R k t t'))"

definition predicted :: "Track \<Rightarrow> Track \<Rightarrow> bool" where
  "predicted t t' \<longleftrightarrow>
     same_plate t t' \<and> state t' = state t \<and> age t' = age t + 1
     \<and> time_since_update t' = time_since_update t + 1"

definition matched_upd :: "Track \<Rightarrow> Track \<Rightarrow> bool" where
  "matched_upd t t' \<longleftrightarrow> same_plate t t' \<and> age t' = age t \<and> time_since_update t' = 0"

definition handled :: "int \<Rightarrow> Track \<Rightarrow> Track \<Rightarrow> bool" where
  "handled max_lost t t' \<longleftrightarrow>
     same_plate t t' \<and> age t' = age t \<and> time_since_update t' = time_since_update t
     \<and> (time_since_update t' \<le> max_lost \<or> state t' = DELETED)"

definition new_track :: "Track \<Rightarrow> bool" where
  "new_track t \<longleftrightarrow>
     state t = TENTATIVE \<and> age t = 0 \<and> time_since_update t = 0 \<and> hits t = 1
     \<and> \<not> plate_locked t \<and> plate_text t = None \<and> plate_readings t = []"

definition tracker_step :: "Track \<Rightarrow> Track \<Rightarrow> bool" where
  "tracker_step t t' \<longleftrightarrow>
     same_plate t t' \<and> age t' = age t + 1
     \<and> (time_since_update t' = time_since_update t + 1 \<or> time_since_update t' = 0)"

definition stale_engine :: TrackingEngine where
  "stale_engine =
     example_engine\<lparr>tracks := [(1, example_track 1 \<lparr>x1 = 0, y1 = 0, x2 = 10, y2 = 10\<rparr> CONFIRMED 0),
                               (2, example_track 2 \<lparr>x1 = 20, y1 = 0, x2 = 30, y2 = 10\<rparr> CONFIRMED 30)]\<rparr>"

section \<open>Properties of iou\<close>

lemma inter_area_nonneg: "\<not> overlap_empty a b \<Longrightarrow> 0 \<le> inter_area a b"
  by (simp add: overlap_empty_def inter_area_def not_less)

lemma inter_area_le_left:
  assumes "\<not> overlap_empty a b"
  shows "inter_area a b \<le> box_area a"
proof -
  let ?w = "min (x2 a) (x2 b) - max (x1 a) (x1 b)"
  let ?h = "min (y2 a) (y2 b) - max (y1 a) (y1 b)"
  have w: "0 \<le> ?w" "?w \<le> x2 a - x1 a"
    using assms by (auto simp: overlap_empty_def not_less)
  have h: "0 \<le> ?h" "?h \<le> y2 a - y1 a"
    using assms by (auto simp: overlap_empty_def not_less)
  have "?w * ?h \<le> (x2 a - x1 a) * (y2 a - y1 a)"
    using w h by (intro mult_mono) auto
  then show ?thesis by (simp add: inter_area_def box_area_def)
qed

lemma inter_area_le_right:
  assumes "\<not> overlap_empty a b"
  shows "inter_area a b \<le> box_area b"
proof -
  let ?w = "min (x2 a) (x2 b) - max (x1 a) (x1 b)"
  let ?h = "min (y2 a) (y2 b) - max (y1 a) (y1 b)"
  have w: "0 \<le> ?w" "?w \<le> x2 b - x1 b"
    using assms by (auto simp: overlap_empty_def not_less)
  have h: "0 \<le> ?h" "?h \<le> y2 b - y1 b"
    using assms by (auto simp: overlap_empty_def not_less)
  have "?w * ?h \<le> (x2 b - x1 b) * (y2 b - y1 b)"
    using w h by (intro mult_mono) auto
  then show ?thesis by (simp add: inter_area_def box_area_def)
qed

lemma iou_unfold:
  "iou a b =
     (if overlap_empty a b then Inr 0
      else if union_area a b > 0 then py_truediv (inter_area a b) (union_area a b)
      else Inr 0)"
  by (simp add: iou_def Let_def overlap_empty_def union_area_def inter_area_def box_area_def)

lemma well_formed_union_pos:
  assumes "well_formed_box a" "well_formed_box b" "\<not> overlap_empty a b"
  shows "0 < union_area a b"
proof -
  have "0 < box_area a"
    using assms(1) by (simp add: well_formed_box_def box_area_def)
  moreover have "inter_area a b \<le> box_area b"
    using assms(3) by (rule inter_area_le_right)
  ultimately show ?thesis by (simp add: union_area_def)
qed

text \<open>
  Claim C10. For every pair of boxes, degenerate ones included, \<open>iou\<close> returns a value
  and never divides by zero. The value is 0 when the overlap is empty or the union area is
  not positive, and the intersection area over the union area otherwise; it always lies in
  [0, 1], and for well-formed boxes that overlap the union area is positive, so the
  quotient is the value returned.
\<close>

theorem iou_well_defined:
  "\<exists>r. iou a b = Inr r
     \<and> (overlap_empty a b \<or> union_area a b \<le> 0 \<longrightarrow> r = 0)
     \<and> (\<not> overlap_empty a b \<and> 0 < union_area a b \<longrightarrow>
          union_area a b \<noteq> 0 \<and> r = inter_area a b / union_area a b)
     \<and> 0 \<le> r \<and> r \<le> 1
     \<and> (well_formed_box a \<and> well_formed_box b \<and> \<not> overlap_empty a b \<longrightarrow>
          0 < union_area a b \<and> r = inter_area a b / union_area a b)"
proof (cases "overlap_empty a b \<or> union_area a b \<le> 0")
  case True
  then have "iou a b = Inr 0"
    by (auto simp: iou_unfold)
  moreover have "\<not> (well_formed_box a \<and> well_formed_box b \<and> \<not> overlap_empty a b)"
  proof
    assume wf: "well_formed_box a \<and> well_formed_box b \<and> \<not> overlap_empty a b"
    then have "0 < union_area a b"
      by (simp add: well_formed_union_pos)
    with True wf show False by simp
  qed
  ultimately show ?thesis
    using True by auto
next
  case False
  then have ne: "\<not> overlap_empty a b" and pos: "0 < union_area a b"
    by auto
  have val: "iou a b = Inr (inter_area a b / union_area a b)"
    using ne pos by (simp add: iou_unfold py_truediv_def)
  have i0: "0 \<le> inter_area a b"
    using ne by (rule inter_area_nonneg)
  have "inter_area a b \<le> box_area a" "inter_area a b \<le> box_area b"
    using ne by (rule inter_area_le_left, rule inter_area_le_right)
  then have le: "inter_area a b \<le> union_area a b"
    using i0 by (simp add: union_area_def)
  have "0 \<le> inter_area a b / union_area a b" "inter_area a b / union_area a b \<le> 1"
    using i0 pos le by simp_all
  then show ?thesis
    using val ne pos by auto
qed

theorem iou_well_defined_witness:
  "iou \<lparr>x1 = 0, y1 = 0, x2 = 2, y2 = 2\<rparr> \<lparr>x1 = 1, y1 = 1, x2 = 3, y2 = 3\<rparr> = Inr (1 / 7)
   \<and> well_formed_box \<lparr>x1 = 0, y1 = 0, x2 = 2, y2 = 2\<rparr>
   \<and> well_formed_box \<lparr>x1 = 1, y1 = 1, x2 = 3, y2 = 3\<rparr>
   \<and> \<not> overlap_empty \<lparr>x1 = 0, y1 = 0, x2 = 2, y2 = 2\<rparr> \<lparr>x1 = 1, y1 = 1, x2 = 3, y2 = 3\<rparr>
   \<and> union_area \<lparr>x1 = 0, y1 = 0, x2 = 2, y2 = 2\<rparr> \<lparr>x1 = 1, y1 = 1, x2 = 3, y2 = 3\<rparr> = 7"
  using iou_well_defined [of "\<lparr>x1 = 0, y1 = 0, x2 = 2, y2 = 2\<rparr>" "\<lparr>x1 = 1, y1 = 1, x2 = 3, y2 = 3\<rparr>"]
  by (auto simp add: well_formed_box_def overlap_empty_def union_area_def inter_area_def
      box_area_def)

section \<open>The association step\<close>

lemma iou_returns: "iou a b = Inr (iou_of a b)"
  by (auto simp: iou_unfold iou_of_def py_truediv_def)

lemma sequence_err_Inr: "sequence_err (map (\<lambda>x. Inr (g x)) xs) = Inr (map g xs)"
  by (induction xs) auto

lemma dict_getitem_distinct:
  "distinct (keys d) \<Longrightarrow> (k, v) \<in> set d \<Longrightarrow> dict_getitem d k = Inr v"
  by (simp add: dict_getitem_def keys_def)

lemma iou_matrix_value:
  assumes "distinct (keys trks)"
  shows "iou_matrix trks dets =
     Inr (map (\<lambda>item. map (\<lambda>d. iou_of (track_bbox (snd item)) (det_bbox d)) dets) trks)"
proof -
  have "map (\<lambda>track_id.
        case dict_getitem trks track_id of
          Inl err \<Rightarrow> Inl err
        | Inr track \<Rightarrow>
            sequence_err (map (\<lambda>detection. iou (track_bbox track) (det_bbox detection)) dets))
       (keys trks)
     = map (\<lambda>item. Inr (map (\<lambda>d. iou_of (track_bbox (snd item)) (det_bbox d)) dets)) trks"
    unfolding keys_def map_map
  proof (rule map_cong [OF refl])
    fix item assume "item \<in> set trks"
    then have "dict_getitem trks (fst item) = Inr (snd item)"
      using assms dict_getitem_distinct [of trks "fst item" "snd item"] by simp
    then show "((\<lambda>track_id. case dict_getitem trks track_id of
          Inl err \<Rightarrow> Inl err
        | Inr track \<Rightarrow>
            sequence_err (map (\<lambda>detection. iou (track_bbox track) (det_bbox detection)) dets)) \<circ> fst) item
      = Inr (map (\<lambda>d. iou_of (track_bbox (snd item)) (det_bbox d)) dets)"
      by (simp add: iou_returns sequence_err_Inr)
  qed
  then show ?thesis
    by (simp add: iou_matrix_def sequence_err_Inr)
qed

lemma sort_reverse_eq: "sort_reverse f xs = spec_sort_desc f xs"
proof -
  let ?ys = "rev (sort_key f (rev xs))"
  have "sort_key (\<lambda>x. - f x) xs = ?ys"
  proof (rule properties_for_sort_key)
    show "mset ?ys = mset xs" by simp
  next
    fix k
    have "filter (\<lambda>x. f x = f k) (sort_key f (rev xs)) = filter (\<lambda>x. f x = f k) (rev xs)"
      by (rule sort_key_stable)
    then have "rev (filter (\<lambda>x. f x = f k) (sort_key f (rev xs))) = filter (\<lambda>x. f x = f k) xs"
      by (simp add: rev_filter)
    then show "filter (\<lambda>x. - f k = - f x) ?ys = filter (\<lambda>x. - f k = - f x) xs"
      by (simp add: rev_filter eq_commute)
  next
    have "sorted (map f (sort_key f (rev xs)))" by simp
    then have "sorted_wrt (\<lambda>x y. f x \<le> f y) (sort_key f (rev xs))"
      by (simp add: sorted_map)
    then have "sorted_wrt (\<lambda>x y. - f x \<le> - f y) ?ys"
      by (simp add: sorted_wrt_rev)
    then show "sorted (map (\<lambda>x. - f x) ?ys)"
      by (simp add: sorted_map)
  qed
  then show ?thesis by (simp add: sort_reverse_def spec_sort_desc_def)
qed

lemma insort_key_map: "insort_key f (h x) (map h xs) = map h (insort_key (\<lambda>y. f (h y)) x xs)"
  by (induction xs) auto

lemma sort_key_map: "sort_key f (map h xs) = map h (sort_key (\<lambda>y. f (h y)) xs)"
  by (induction xs) (auto simp: insort_key_map)

lemma spec_sort_desc_map: "spec_sort_desc f (map h xs) = map h (spec_sort_desc (\<lambda>y. f (h y)) xs)"
  by (simp add: spec_sort_desc_def sort_key_map)

lemma candidate_cells_spec:
  assumes "\<And>i j. i < n \<Longrightarrow> j < m \<Longrightarrow> M ! i ! j = val i j"
  shows "candidate_cells thr M n m = map (\<lambda>c. (fst c, snd c, val (fst c) (snd c))) (spec_cells thr val n m)"
proof -
  have inner: "concat (map (\<lambda>j. if M ! i ! j > thr then [(i, j, M ! i ! j)] else []) [0..<m])
     = map (\<lambda>c. (fst c, snd c, val (fst c) (snd c)))
         (map (\<lambda>j. (i, j)) (filter (\<lambda>j. val i j > thr) [0..<m]))" if "i < n" for i
  proof -
    have "\<And>js. set js \<subseteq> {0..<m} \<Longrightarrow>
       concat (map (\<lambda>j. if M ! i ! j > thr then [(i, j, M ! i ! j)] else []) js)
       = map (\<lambda>c. (fst c, snd c, val (fst c) (snd c)))
         (map (\<lambda>j. (i, j)) (filter (\<lambda>j. val i j > thr) js))"
    proof -
      fix js show "set js \<subseteq> {0..<m} \<Longrightarrow>
       concat (map (\<lambda>j. if M ! i ! j > thr then [(i, j, M ! i ! j)] else []) js)
       = map (\<lambda>c. (fst c, snd c, val (fst c) (snd c)))
         (map (\<lambda>j. (i, j)) (filter (\<lambda>j. val i j > thr) js))"
        using assms [OF that] by (induction js) auto
    qed
    then show ?thesis by simp
  qed
  have "\<And>is. set is \<subseteq> {0..<n} \<Longrightarrow>
     concat (map (\<lambda>i. concat (map (\<lambda>j. if M ! i ! j > thr then [(i, j, M ! i ! j)] else []) [0..<m])) is)
     = map (\<lambda>c. (fst c, snd c, val (fst c) (snd c)))
        (concat (map (\<lambda>i. map (\<lambda>j. (i, j)) (filter (\<lambda>j. val i j > thr) [0..<m])) is))"
  proof -
    fix "is" show "set is \<subseteq> {0..<n} \<Longrightarrow>
     concat (map (\<lambda>i. concat (map (\<lambda>j. if M ! i ! j > thr then [(i, j, M ! i ! j)] else []) [0..<m])) is)
     = map (\<lambda>c. (fst c, snd c, val (fst c) (snd c)))
        (concat (map (\<lambda>i. map (\<lambda>j. (i, j)) (filter (\<lambda>j. val i j > thr) [0..<m])) is))"
      using inner by (induction "is") (auto simp: map_concat)
  qed
  then show ?thesis
    by (simp add: candidate_cells_def spec_cells_def)
qed

lemma spec_cells_bounds: "(i, j) \<in> set (spec_cells thr val n m) \<Longrightarrow> i < n \<and> j < m"
  by (auto simp: spec_cells_def)

lemma greedy_select_spec:
  assumes "distinct tids"
    and "\<forall>c \<in> set cells. fst c < length tids \<and> snd c \<in> D"
    and "set ut = set tids - (\<lambda>i. tids ! i) ` rows"
    and "rows \<subseteq> {0..<length tids}"
    and "set ud = D - cols"
  shows "\<exists>ud' ut'.
     greedy_select tids (map (\<lambda>c. (fst c, snd c, val c)) cells) (acc, ud, ut)
       = (acc @ map (\<lambda>c. (tids ! fst c, snd c)) (spec_greedy cells rows cols), ud', ut')
     \<and> set ud' = set ud - snd ` set (spec_greedy cells rows cols)
     \<and> set ut' = set ut - (\<lambda>c. tids ! fst c) ` set (spec_greedy cells rows cols)"
  using assms
proof (induction cells arbitrary: acc ud ut rows cols)
  case Nil
  then show ?case by simp
next
  case (Cons c cells)
  obtain i j where c: "c = (i, j)" by (cases c)
  have i: "i < length tids" and jD: "j \<in> D" using Cons.prems(2) c by simp_all
  have mem: "tids ! i \<in> set ut \<longleftrightarrow> i \<notin> rows"
  proof
    assume "tids ! i \<in> set ut"
    then show "i \<notin> rows" using Cons.prems(3) by auto
  next
    assume ni: "i \<notin> rows"
    have "tids ! i \<notin> (\<lambda>i. tids ! i) ` rows"
    proof
      assume "tids ! i \<in> (\<lambda>i. tids ! i) ` rows"
      then obtain k where k: "k \<in> rows" "tids ! i = tids ! k" by auto
      then have "k < length tids" using Cons.prems(4) by auto
      with k i Cons.prems(1) have "i = k" by (simp add: nth_eq_iff_index_eq)
      with k ni show False by simp
    qed
    then show "tids ! i \<in> set ut" using Cons.prems(3) i by simp
  qed
  have memd: "j \<in> set ud \<longleftrightarrow> j \<in> D \<and> j \<notin> cols" using Cons.prems(5) by auto
  show ?case
  proof (cases "tids ! i \<in> set ut \<and> j \<in> set ud")
    case True
    then have acc: "i \<notin> rows" "j \<notin> cols" using mem memd by auto
    have p3: "set (removeAll (tids ! i) ut) = set tids - (\<lambda>i. tids ! i) ` (insert i rows)"
      using Cons.prems(3) by auto
    have p4: "insert i rows \<subseteq> {0..<length tids}" using Cons.prems(4) i by auto
    have p5: "set (removeAll j ud) = D - insert j cols" using Cons.prems(5) by auto
    have p2: "\<forall>c \<in> set cells. fst c < length tids \<and> snd c \<in> D" using Cons.prems(2) by simp
    from Cons.IH [OF Cons.prems(1) p2 p3 p4 p5, of "acc @ [(tids ! i, j)]"]
    obtain ud' ut' where
      IH: "greedy_select tids (map (\<lambda>c. (fst c, snd c, val c)) cells)
             (acc @ [(tids ! i, j)], removeAll j ud, removeAll (tids ! i) ut)
           = ((acc @ [(tids ! i, j)]) @ map (\<lambda>c. (tids ! fst c, snd c))
                (spec_greedy cells (insert i rows) (insert j cols)), ud', ut')"
        "set ud' = set (removeAll j ud) - snd ` set (spec_greedy cells (insert i rows) (insert j cols))"
        "set ut' = set (removeAll (tids ! i) ut)
           - (\<lambda>c. tids ! fst c) ` set (spec_greedy cells (insert i rows) (insert j cols))"
      by blast
    show ?thesis
      using True acc IH by (auto simp: c Let_def)
  next
    case False
    then have rej: "\<not> (i \<notin> rows \<and> j \<notin> cols)" using mem memd jD by auto
    have p2: "\<forall>c \<in> set cells. fst c < length tids \<and> snd c \<in> D" using Cons.prems(2) by simp
    from Cons.IH [OF Cons.prems(1) p2 Cons.prems(3) Cons.prems(4) Cons.prems(5), of acc]
    show ?thesis
      using False rej by (auto simp: c Let_def)
  qed
qed


lemma spec_greedy_subset: "set (spec_greedy cells rows cols) \<subseteq> set cells"
  by (induction cells rows cols rule: spec_greedy.induct) auto

lemma match_spec:
  assumes "distinct (keys (tracks e))"
    and "\<forall>xs. set (list_of_det_set env xs) = set xs"
    and "\<forall>xs. set (list_of_track_set env xs) = set xs"
  shows "\<exists>matched ud ut. match env e dets = Inr (matched, ud, ut)
     \<and> matched = map (\<lambda>c. (keys (tracks e) ! fst c, snd c))
         (spec_matching (iou_threshold (te_config e)) (map snd (tracks e)) dets)
     \<and> set ud = {0..<length dets} - snd ` set matched
     \<and> set ut = set (keys (tracks e)) - fst ` set matched"
proof (cases "tracks e = [] \<or> dets = []")
  case True
  then have "spec_cells (iou_threshold (te_config e))
      (\<lambda>i j. iou_of (track_bbox (map snd (tracks e) ! i)) (det_bbox (dets ! j)))
      (length (map snd (tracks e))) (length dets) = []"
    by (auto simp: spec_cells_def)
  then have "spec_matching (iou_threshold (te_config e)) (map snd (tracks e)) dets = []"
    by (simp add: spec_matching_def spec_sort_desc_def)
  then show ?thesis
    using True by (auto simp: match_def)
next
  case False
  let ?tids = "keys (tracks e)"
  let ?thr = "iou_threshold (te_config e)"
  let ?val = "\<lambda>i j. iou_of (track_bbox (map snd (tracks e) ! i)) (det_bbox (dets ! j))"
  let ?v = "\<lambda>c. ?val (fst c) (snd c)"
  let ?h = "\<lambda>c. (fst c, snd c, ?v c)"
  let ?M = "map (\<lambda>item. map (\<lambda>d. iou_of (track_bbox (snd item)) (det_bbox d)) dets) (tracks e)"
  let ?cells = "spec_cells ?thr ?val (length ?tids) (length dets)"
  let ?sorted = "spec_sort_desc ?v ?cells"
  let ?sg = "spec_greedy ?sorted {} {}"
  have len: "length ?tids = length (tracks e)" by (simp add: keys_def)
  have M: "iou_matrix (tracks e) dets = Inr ?M"
    using assms(1) by (rule iou_matrix_value)
  have cc: "candidate_cells ?thr ?M (length ?tids) (length dets) = map ?h ?cells"
    by (rule candidate_cells_spec) (simp add: len)
  have srt: "sort_reverse (\<lambda>c. snd (snd c)) (map ?h ?cells) = map ?h ?sorted"
    by (simp add: sort_reverse_eq spec_sort_desc_map)
  have bounds: "\<forall>c \<in> set ?sorted. fst c < length ?tids \<and> snd c \<in> {0..<length dets}"
    using spec_cells_bounds [of _ _ ?thr ?val "length ?tids" "length dets"]
    by (auto simp: spec_sort_desc_def)
  have rd: "remdups ?tids = ?tids" using assms(1) by simp
  from greedy_select_spec [OF assms(1) bounds, of ?tids "{}" "[0..<length dets]" "{}" ?v "[]"]
  obtain ud' ut' where g:
    "greedy_select ?tids (map ?h ?sorted) ([], [0..<length dets], ?tids)
       = (map (\<lambda>c. (?tids ! fst c, snd c)) ?sg, ud', ut')"
    "set ud' = {0..<length dets} - snd ` set ?sg"
    "set ut' = set ?tids - (\<lambda>c. ?tids ! fst c) ` set ?sg"
    by auto
  have m: "match env e dets
      = Inr (map (\<lambda>c. (?tids ! fst c, snd c)) ?sg, list_of_det_set env ud', list_of_track_set env ut')"
    using False M cc srt g(1) by (simp add: match_def Let_def distinct_remdups_id [OF assms(1)])
  have sm: "spec_matching ?thr (map snd (tracks e)) dets = ?sg"
    by (simp add: spec_matching_def Let_def len)
  have i1: "snd ` set (map (\<lambda>c. (?tids ! fst c, snd c)) ?sg) = snd ` set ?sg"
    by (simp add: image_image)
  have i2: "fst ` set (map (\<lambda>c. (?tids ! fst c, snd c)) ?sg) = (\<lambda>c. ?tids ! fst c) ` set ?sg"
    by (simp add: image_image)
  show ?thesis
    unfolding m sm using g(2,3) assms(2,3) i1 i2 by simp
qed

text \<open>
  Claim C5. The association step of the tracker returns exactly the matching of the
  specification: the cells above the threshold in row-major order, sorted by descending
  IoU with equal cells in enumeration order, selected greedily when row and column are
  both unconsumed; every other detection and track is returned unmatched. (The keys of a
  dict are distinct, and \<open>list(s)\<close> enumerates exactly the members of \<open>s\<close>.)
\<close>

theorem match_is_spec_matching:
  assumes "distinct (keys (tracks e))"
    and "\<forall>xs. set (list_of_det_set env xs) = set xs"
    and "\<forall>xs. set (list_of_track_set env xs) = set xs"
  shows "\<exists>matched ud ut. match env e dets = Inr (matched, ud, ut)
     \<and> matched = map (\<lambda>c. (keys (tracks e) ! fst c, snd c))
         (spec_matching (iou_threshold (te_config e)) (map snd (tracks e)) dets)
     \<and> set ud = {0..<length dets} - snd ` set matched
     \<and> set ut = set (keys (tracks e)) - fst ` set matched"
  using assms by (rule match_spec)

lemma ex_match: "match example_env example_engine example_detections = Inr ([(1, 1), (2, 0)], [2], [])"
  by (simp add: match_def example_env_def example_engine_def example_detections_def
      example_track_def example_detection_def example_config_def iou_matrix_def keys_def
      dict_getitem_def iou_def py_truediv_def candidate_cells_def sort_reverse_def Let_def
      upt_rec)

lemma ex_spec_matching:
  "spec_matching (3 / 10) (map snd (tracks example_engine)) example_detections = [(0, 1), (1, 0)]"
  by (simp add: spec_matching_def spec_cells_def spec_sort_desc_def iou_of_def overlap_empty_def
      union_area_def inter_area_def box_area_def example_engine_def example_detections_def
      example_track_def example_detection_def Let_def upt_rec)

theorem match_is_spec_matching_witness:
  "distinct (keys (tracks example_engine))
   \<and> (\<forall>xs. set (list_of_det_set example_env xs) = set xs)
   \<and> (\<forall>xs. set (list_of_track_set example_env xs) = set xs)
   \<and> match example_env example_engine example_detections = Inr ([(1, 1), (2, 0)], [2], [])
   \<and> map (\<lambda>c. (keys (tracks example_engine) ! fst c, snd c))
         (spec_matching (iou_threshold (te_config example_engine))
            (map snd (tracks example_engine)) example_detections)
       = [(1, 1), (2, 0)]"
proof -
  have h1: "distinct (keys (tracks example_engine))"
    by (simp add: example_engine_def keys_def)
  have h2: "\<forall>xs. set (list_of_det_set example_env xs) = set xs"
    by (simp add: example_env_def)
  have h3: "\<forall>xs. set (list_of_track_set example_env xs) = set xs"
    by (simp add: example_env_def)
  from match_is_spec_matching [OF h1 h2 h3, of example_detections]
  have "map (\<lambda>c. (keys (tracks example_engine) ! fst c, snd c))
          (spec_matching (iou_threshold (te_config example_engine))
             (map snd (tracks example_engine)) example_detections)
        = [(1, 1), (2, 0)]"
    by (simp add: ex_match)
  with h1 h2 h3 ex_match show ?thesis by simp
qed

section \<open>OCR admission\<close>

lemma can_process_rejected_no_effect:
  "\<not> can_process now_gate tid eng \<Longrightarrow> recognize_plate now_gate now_admit outcome tid eng = (None, eng)"
  by (simp add: recognize_plate_def)

text \<open>
  Claim C8. \<open>can_process\<close> holds exactly when the OCR subsystem is enabled and loaded, the
  active count is below \<open>max_concurrent\<close>, and the track has no recorded OCR time or at
  least \<open>throttle_frames / 20\<close> seconds have passed since it. The check returns a boolean
  and changes nothing; an admission attempt that fails it, in particular one at the
  \<open>max_concurrent\<close> cap, returns nothing and leaves the engine as it was.
\<close>

theorem can_process_admission:
  "(can_process now tid eng \<longleftrightarrow>
      enabled (oe_config eng) \<and> is_loaded eng
      \<and> active_ocr_count eng < max_concurrent (oe_config eng)
      \<and> (last_ocr_time eng tid = None
          \<or> (\<exists>t. last_ocr_time eng tid = Some t
                \<and> now - t \<ge> real_of_int (throttle_frames (oe_config eng)) / 20)))
   \<and> (\<not> can_process now tid eng \<longrightarrow>
        recognize_plate now now_admit outcome tid eng = (None, eng))
   \<and> (active_ocr_count eng \<ge> max_concurrent (oe_config eng) \<longrightarrow>
        \<not> can_process now tid eng
        \<and> recognize_plate now now_admit outcome tid eng = (None, eng))"
proof -
  have iff: "can_process now tid eng \<longleftrightarrow>
      enabled (oe_config eng) \<and> is_loaded eng
      \<and> active_ocr_count eng < max_concurrent (oe_config eng)
      \<and> (last_ocr_time eng tid = None
          \<or> (\<exists>t. last_ocr_time eng tid = Some t
                \<and> now - t \<ge> real_of_int (throttle_frames (oe_config eng)) / 20))"
    by (cases "last_ocr_time eng tid") (auto simp: can_process_def Let_def)
  have cap: "active_ocr_count eng \<ge> max_concurrent (oe_config eng) \<Longrightarrow> \<not> can_process now tid eng"
    by (simp add: can_process_def)
  show ?thesis
    using iff cap can_process_rejected_no_effect [of now tid eng now_admit outcome] by blast
qed

theorem can_process_admission_witness:
  "active_ocr_count busy_ocr_engine \<ge> max_concurrent (oe_config busy_ocr_engine)
   \<and> \<not> can_process 100 1 busy_ocr_engine
   \<and> recognize_plate 100 101 (Plate ''ABC1234'' (9 / 10)) 1 busy_ocr_engine
       = (None, busy_ocr_engine)
   \<and> can_process 100 1 (busy_ocr_engine\<lparr>active_ocr_count := 1\<rparr>)
   \<and> \<not> can_process 100 1 (busy_ocr_engine\<lparr>active_ocr_count := 1,
          last_ocr_time := [1 \<mapsto> 99 + 3 / 4]\<rparr>)
   \<and> can_process 100 1 (busy_ocr_engine\<lparr>active_ocr_count := 1,
          last_ocr_time := [1 \<mapsto> 99 + 1 / 2]\<rparr>)"
proof -
  have cap: "active_ocr_count busy_ocr_engine \<ge> max_concurrent (oe_config busy_ocr_engine)"
    by (simp add: busy_ocr_engine_def example_ocr_config_def)
  from can_process_admission [of 100 1 busy_ocr_engine 101 "Plate ''ABC1234'' (9 / 10)"] cap
  have "\<not> can_process 100 1 busy_ocr_engine"
    and "recognize_plate 100 101 (Plate ''ABC1234'' (9 / 10)) 1 busy_ocr_engine
       = (None, busy_ocr_engine)"
    by blast+
  moreover have "can_process 100 1 (busy_ocr_engine\<lparr>active_ocr_count := 1\<rparr>)"
    by (simp add: can_process_def busy_ocr_engine_def example_ocr_config_def)
  moreover have "\<not> can_process 100 1 (busy_ocr_engine\<lparr>active_ocr_count := 1,
          last_ocr_time := [1 \<mapsto> 99 + 3 / 4]\<rparr>)"
    by (simp add: can_process_def busy_ocr_engine_def example_ocr_config_def)
  moreover have "can_process 100 1 (busy_ocr_engine\<lparr>active_ocr_count := 1,
          last_ocr_time := [1 \<mapsto> 99 + 1 / 2]\<rparr>)"
    by (simp add: can_process_def busy_ocr_engine_def example_ocr_config_def)
  ultimately show ?thesis using cap by blast
qed

section \<open>The producer side of the durable writer\<close>

lemma enqueue_full: "length (write_queue db) \<ge> write_queue_maxsize \<Longrightarrow> enqueue wop db = db"
  by (simp add: enqueue_def put_nowait_def)

lemma enqueue_room:
  "length (write_queue db) < write_queue_maxsize \<Longrightarrow>
     enqueue wop db = db\<lparr>write_queue := write_queue db @ [wop]\<rparr>"
  by (simp add: enqueue_def put_nowait_def)

text \<open>
  Claim C9, as the code has it. The three producers always return. On a full queue
  (1000 records) the new record is dropped and the manager is left exactly as it was: the
  queue contents are unchanged, and so is every counter that \<open>get_stats\<close> exposes (the drop
  is logged, not counted). With room in the queue the record is appended.
\<close>

theorem enqueue_drops_when_full:
  "(length (write_queue db) \<ge> 1000 \<longrightarrow>
      insert_event ev db = db \<and> insert_track trow db = db \<and> insert_camera crow db = db
      \<and> get_stats (insert_event ev db) = get_stats db
      \<and> get_stats (insert_track trow db) = get_stats db
      \<and> get_stats (insert_camera crow db) = get_stats db)
   \<and> (length (write_queue db) < 1000 \<longrightarrow>
      write_queue (insert_event ev db) = write_queue db @ [Insert_event ev]
      \<and> write_queue (insert_track trow db) = write_queue db @ [Insert_track trow]
      \<and> write_queue (insert_camera crow db) = write_queue db @ [Insert_camera crow])"
  by (simp add: insert_event_def insert_track_def insert_camera_def enqueue_full enqueue_room
      write_queue_maxsize_def)

theorem enqueue_drops_when_full_witness:
  "length (write_queue full_database) \<ge> 1000
   \<and> insert_event example_event full_database = full_database
   \<and> length (write_queue (full_database\<lparr>write_queue := []\<rparr>)) < 1000
   \<and> write_queue (insert_event example_event (full_database\<lparr>write_queue := []\<rparr>))
       = [Insert_event example_event]"
  using enqueue_drops_when_full [of full_database example_event]
    enqueue_drops_when_full [of "full_database\<lparr>write_queue := []\<rparr>" example_event]
  by (simp add: full_database_def)

text \<open>
  The claim as stated fails: on a full queue the drop changes no counter that the manager
  exposes.
\<close>

theorem drop_is_not_counted:
  "length (write_queue full_database) = 1000
   \<and> write_queue (insert_event example_event full_database) = write_queue full_database
   \<and> get_stats (insert_event example_event full_database) = get_stats full_database
   \<and> total_writes (insert_event example_event full_database) = total_writes full_database
   \<and> failed_writes (insert_event example_event full_database) = failed_writes full_database"
  by (simp add: insert_event_def enqueue_def put_nowait_def write_queue_maxsize_def
      full_database_def)

section \<open>Fusion of readings\<close>

lemma max_from_decomp:
  "\<exists>ys zs. b # xs = ys @ max_from f b xs # zs
     \<and> (\<forall>y \<in> set ys. f y < f (max_from f b xs))
     \<and> (\<forall>z \<in> set zs. f z \<le> f (max_from f b xs))"
proof (induction xs arbitrary: b)
  case Nil
  have "[b] = [] @ b # []" by simp
  then show ?case by (metis empty_iff list.set(1) max_from.simps(1))
next
  case (Cons x xs)
  show ?case
  proof (cases "f b < f x")
    case True
    from Cons.IH [of x] obtain ys zs where d: "x # xs = ys @ max_from f x xs # zs"
      and lt: "\<forall>y \<in> set ys. f y < f (max_from f x xs)"
      and le: "\<forall>z \<in> set zs. f z \<le> f (max_from f x xs)"
      by blast
    have "f x \<le> f (max_from f x xs)"
    proof (cases ys)
      case Nil
      with d have "x # xs = max_from f x xs # zs" by (simp only: append_Nil)
      then have "max_from f x xs = x" by (metis list.inject)
      then show ?thesis by simp
    next
      case (Cons y ys')
      with d have "x \<in> set ys" by simp
      with lt show ?thesis by fastforce
    qed
    with True have "f b < f (max_from f x xs)" by simp
    with lt have lt': "\<forall>y \<in> set (b # ys). f y < f (max_from f x xs)" by simp
    have dec: "b # x # xs = (b # ys) @ max_from f x xs # zs" using d by simp
    have mx: "max_from f b (x # xs) = max_from f x xs" using True by simp
    show ?thesis unfolding mx using dec lt' le by blast
  next
    case False
    from Cons.IH [of b] obtain ys zs where d: "b # xs = ys @ max_from f b xs # zs"
      and lt: "\<forall>y \<in> set ys. f y < f (max_from f b xs)"
      and le: "\<forall>z \<in> set zs. f z \<le> f (max_from f b xs)"
      by blast
    show ?thesis
    proof (cases ys)
      case Nil
      with d have "b # xs = max_from f b xs # zs" by (simp only: append_Nil)
      then have m: "max_from f b xs = b" and z: "zs = xs" by (metis list.inject)+
      have dec: "b # x # xs = [] @ b # (x # xs)" by simp
      have le': "\<forall>z \<in> set (x # xs). f z \<le> f b" using False le m z by auto
      have lt': "\<forall>y \<in> set []. f y < f b" by simp
      have mx: "max_from f b (x # xs) = b" using False m by simp
      show ?thesis unfolding mx using dec lt' le' by blast
    next
      case (Cons y ys')
      with d have "b # xs = y # (ys' @ max_from f b xs # zs)" by (simp only: append_Cons)
      then have y: "y = b" and r: "xs = ys' @ max_from f b xs # zs" by (metis list.inject)+
      have "f b < f (max_from f b xs)" using lt Cons y by simp
      with False have "f x < f (max_from f b xs)" by simp
      with lt Cons y have lt': "\<forall>q \<in> set (b # x # ys'). f q < f (max_from f b xs)" by simp
      have dec: "b # x # xs = (b # x # ys') @ max_from f b xs # zs" using r by simp
      have mx: "max_from f b (x # xs) = max_from f b xs" using False by simp
      show ?thesis unfolding mx using dec lt' le by blast
    qed
  qed
qed

lemma py_max_decomp:
  assumes "py_max f xs = Inr r"
  shows "\<exists>ys zs. xs = ys @ r # zs \<and> (\<forall>y \<in> set ys. f y < f r) \<and> (\<forall>z \<in> set zs. f z \<le> f r)"
proof (cases xs)
  case Nil
  with assms show ?thesis by (simp add: py_max_def)
next
  case (Cons b rest)
  with assms have "r = max_from f b rest" by (simp add: py_max_def)
  with max_from_decomp [of b rest f] Cons show ?thesis by simp
qed

lemma py_max_nonempty: "xs \<noteq> [] \<Longrightarrow> \<exists>r. py_max f xs = Inr r"
  by (cases xs) (simp_all add: py_max_def)

lemma py_max_highest_confidence:
  "py_max r_confidence readings = Inr r \<Longrightarrow> highest_confidence r readings"
  unfolding highest_confidence_def by (rule py_max_decomp)

lemma map_default_present:
  "k \<in> set (keys c) \<Longrightarrow> keys (AList.map_default k v f c) = keys c"
  by (induction c) (auto simp: keys_def)

lemma map_default_absent:
  "k \<notin> set (keys c) \<Longrightarrow> AList.map_default k v f c = c @ [(k, v)]"
  by (induction c) (auto simp: keys_def)

lemma counter_snoc: "counter (xs @ [x]) = AList.map_default x 1 (\<lambda>n. n + 1) (counter xs)"
  by (simp add: counter_def)

lemma first_pos_snoc_old: "y \<in> set xs \<Longrightarrow> first_pos (xs @ [x]) y = first_pos xs y"
  by (simp add: first_pos_def takeWhile_append1)

lemma first_pos_less: "y \<in> set xs \<Longrightarrow> first_pos xs y < length xs"
  by (induction xs) (auto simp: first_pos_def)

lemma first_pos_snoc_new: "x \<notin> set xs \<Longrightarrow> first_pos (xs @ [x]) x = length xs"
  by (induction xs) (auto simp: first_pos_def)

lemma counter_props:
  "distinct (keys (counter xs)) \<and> set (keys (counter xs)) = set xs
   \<and> (\<forall>y \<in> set xs. map_of (counter xs) y = Some (count_list xs y))
   \<and> sorted_wrt (\<lambda>a b. first_pos xs a < first_pos xs b) (keys (counter xs))"
proof (induction xs rule: rev_induct)
  case Nil
  show ?case by (simp add: counter_def keys_def)
next
  case (snoc x xs)
  let ?c = "counter xs"
  have d: "distinct (keys ?c)" and ks: "set (keys ?c) = set xs"
    and mo: "\<forall>y \<in> set xs. map_of ?c y = Some (count_list xs y)"
    and so: "sorted_wrt (\<lambda>a b. first_pos xs a < first_pos xs b) (keys ?c)"
    using snoc.IH by auto
  have so': "sorted_wrt (\<lambda>a b. first_pos (xs @ [x]) a < first_pos (xs @ [x]) b) (keys ?c)"
    using so ks by (auto simp: first_pos_snoc_old elim!: sorted_wrt_mono_rel [rotated])
  show ?case
  proof (cases "x \<in> set xs")
    case True
    then have k: "keys (counter (xs @ [x])) = keys ?c"
      using ks by (simp add: counter_snoc map_default_present)
    have "\<forall>y \<in> set (xs @ [x]). map_of (counter (xs @ [x])) y = Some (count_list (xs @ [x]) y)"
      using True mo by (auto simp: counter_snoc map_of_map_default)
    then show ?thesis using k d ks so' True by auto
  next
    case False
    then have c: "counter (xs @ [x]) = ?c @ [(x, 1)]"
      using ks by (simp add: counter_snoc map_default_absent)
    have k: "keys (counter (xs @ [x])) = keys ?c @ [x]"
      by (simp add: c keys_def)
    have none: "map_of ?c x = None"
      using False ks by (simp add: map_of_eq_None_iff keys_def)
    have m: "\<forall>y \<in> set (xs @ [x]). map_of (counter (xs @ [x])) y = Some (count_list (xs @ [x]) y)"
      using False mo none by (auto simp: counter_snoc map_of_map_default)
    have "\<forall>a \<in> set (keys ?c). first_pos (xs @ [x]) a < first_pos (xs @ [x]) x"
      using False ks by (auto simp: first_pos_snoc_old first_pos_snoc_new first_pos_less)
    then have s: "sorted_wrt (\<lambda>a b. first_pos (xs @ [x]) a < first_pos (xs @ [x]) b)
                    (keys (counter (xs @ [x])))"
      using so' by (simp add: k sorted_wrt_append)
    show ?thesis using k d ks False m s by auto
  qed
qed

lemma counter_entry:
  assumes "(y, n) \<in> set (counter xs)"
  shows "y \<in> set xs \<and> n = count_list xs y"
proof -
  have "y \<in> set (keys (counter xs))" using assms by (force simp: keys_def)
  then have y: "y \<in> set xs" using counter_props [of xs] by simp
  have "distinct (map fst (counter xs))" using counter_props [of xs] by (simp add: keys_def)
  then have "map_of (counter xs) y = Some n" using assms by simp
  with y show ?thesis using counter_props [of xs] by simp
qed

lemma most_common1_most_frequent:
  assumes "most_common1 xs = Inr x"
  shows "most_frequent_first x xs"
proof -
  from assms obtain entry where pm: "py_max snd (counter xs) = Inr entry" and x: "x = fst entry"
    by (auto simp: most_common1_def split: sum.splits)
  from py_max_decomp [OF pm] obtain ys zs where
    d: "counter xs = ys @ entry # zs"
    and lt: "\<forall>e \<in> set ys. snd e < snd entry"
    and le: "\<forall>e \<in> set zs. snd e \<le> snd entry"
    by blast
  have "(x, snd entry) \<in> set (counter xs)" using d x by simp
  then have xin: "x \<in> set xs" and n: "snd entry = count_list xs x"
    using counter_entry by fastforce+
  have entries: "\<And>y. y \<in> set xs \<Longrightarrow> (y, count_list xs y) \<in> set (counter xs)"
  proof -
    fix y assume "y \<in> set xs"
    then have "map_of (counter xs) y = Some (count_list xs y)"
      using counter_props [of xs] by simp
    then show "(y, count_list xs y) \<in> set (counter xs)" by (rule map_of_SomeD)
  qed
  have srt: "sorted_wrt (\<lambda>a b. first_pos xs a < first_pos xs b) (map fst ys @ x # map fst zs)"
    using counter_props [of xs] d x by (simp add: keys_def)
  have most: "\<forall>y \<in> set xs. count_list xs y \<le> count_list xs x"
  proof
    fix y assume "y \<in> set xs"
    then have "(y, count_list xs y) \<in> set ys \<union> {entry} \<union> set zs"
      using entries d by auto
    then show "count_list xs y \<le> count_list xs x"
      using lt le n by fastforce
  qed
  have tie: "\<forall>y \<in> set xs. count_list xs y = count_list xs x \<longrightarrow> first_pos xs x \<le> first_pos xs y"
  proof (intro ballI impI)
    fix y assume y: "y \<in> set xs" and eq: "count_list xs y = count_list xs x"
    have mem: "(y, count_list xs y) \<in> set ys \<union> {entry} \<union> set zs"
      using entries [OF y] d by auto
    have "(y, count_list xs y) \<notin> set ys" using lt eq n by fastforce
    with mem have "y = x \<or> y \<in> set (map fst zs)" using x by force
    then show "first_pos xs x \<le> first_pos xs y"
      using srt by (auto simp: sorted_wrt_append)
  qed
  show ?thesis using xin most tie by (simp add: most_frequent_first_def)
qed

lemma most_common1_total: "xs \<noteq> [] \<Longrightarrow> \<exists>x. most_common1 xs = Inr x"
proof -
  assume "xs \<noteq> []"
  then have "set (keys (counter xs)) \<noteq> {}" using counter_props [of xs] by simp
  then have "counter xs \<noteq> []" by (auto simp: keys_def)
  then obtain e where "py_max snd (counter xs) = Inr e" using py_max_nonempty by blast
  then show ?thesis by (simp add: most_common1_def)
qed

lemma place_reading_total:
  assumes "\<forall>g \<in> set gs. g \<noteq> []"
  shows "\<exists>gs'. place_reading r gs = Inr gs' \<and> (\<forall>g \<in> set gs'. g \<noteq> []) \<and> gs' \<noteq> []"
  using assms
proof (induction gs)
  case Nil
  show ?case by simp
next
  case (Cons g gs)
  then obtain gs' where "place_reading r gs = Inr gs'" "\<forall>g \<in> set gs'. g \<noteq> []" by auto
  moreover have "g \<noteq> []" using Cons.prems by simp
  ultimately show ?case using Cons.prems
    by (cases g) (auto simp: list_getitem_def)
qed

lemma for_loop_place_total:
  assumes "\<forall>g \<in> set gs. g \<noteq> []"
  shows "\<exists>gs'. for_loop place_reading rs gs = Inr gs' \<and> (\<forall>g \<in> set gs'. g \<noteq> [])
           \<and> (rs \<noteq> [] \<or> gs \<noteq> [] \<longrightarrow> gs' \<noteq> [])"
  using assms
proof (induction rs arbitrary: gs)
  case Nil
  then show ?case by simp
next
  case (Cons r rs)
  from place_reading_total [OF Cons.prems, of r] obtain gs1 where
    p: "place_reading r gs = Inr gs1" "\<forall>g \<in> set gs1. g \<noteq> []" "gs1 \<noteq> []" by blast
  from Cons.IH [OF p(2)] obtain gs' where
    "for_loop place_reading rs gs1 = Inr gs'" "\<forall>g \<in> set gs'. g \<noteq> []" "gs' \<noteq> []"
    using p(3) by blast
  then show ?case using p(1) by simp
qed

lemma group_readings_total:
  "\<exists>groups. group_readings readings = Inr groups \<and> (\<forall>g \<in> set groups. g \<noteq> [])
      \<and> (readings \<noteq> [] \<longrightarrow> groups \<noteq> [])"
  using for_loop_place_total [of "[]" readings] by (simp add: group_readings_def)

lemma fuse_no_consensus:
  assumes "readings \<noteq> []" and "fusion_min_samples cfg \<le> int (length readings)"
    and "group_readings readings = Inr groups" and "py_max length groups = Inr g"
    and "int (length g) < fusion_min_samples cfg"
  shows "\<exists>r. fuse_readings cfg readings = Inr (Some (BestReading r))
           \<and> highest_confidence r readings"
proof -
  from assms(1) obtain r where r: "py_max r_confidence readings = Inr r"
    using py_max_nonempty by blast
  then have "fuse_readings cfg readings = Inr (Some (BestReading r))"
    using assms by (simp add: fuse_readings_def)
  with r show ?thesis by (auto intro: py_max_highest_confidence)
qed

lemma fuse_consensus:
  assumes "readings \<noteq> []" and "fusion_min_samples cfg \<le> int (length readings)"
    and "group_readings readings = Inr groups" and "py_max length groups = Inr g"
    and "fusion_min_samples cfg \<le> int (length g)"
  shows "\<exists>txt. fuse_readings cfg readings =
             Inr (Some (Consensus txt
               (mean (map r_confidence (filter (\<lambda>r. r_text r = txt) g))) (int (length g))))
           \<and> most_frequent_first txt (map r_text g)
           \<and> filter (\<lambda>r. r_text r = txt) g \<noteq> []"
proof -
  from py_max_decomp [OF assms(4)] have "g \<in> set groups" by auto
  then have "g \<noteq> []" using group_readings_total [of readings] assms(3) by auto
  then obtain mc where t: "most_common1 (map r_text g) = Inr mc"
    using most_common1_total [of "map r_text g"] by auto
  then have mf: "most_frequent_first mc (map r_text g)"
    by (rule most_common1_most_frequent)
  then have "mc \<in> set (map r_text g)" by (simp add: most_frequent_first_def)
  then have ne: "filter (\<lambda>r. r_text r = mc) g \<noteq> []"
    by (auto simp: filter_empty_conv)
  have "fuse_readings cfg readings =
      Inr (Some (Consensus mc
        (mean (map r_confidence (filter (\<lambda>r. r_text r = mc) g))) (int (length g))))"
    using assms t by (simp add: fuse_readings_def np_mean_def mean_def)
  with mf ne show ?thesis by blast
qed

lemma recognize_plate_config: "oe_config (snd (recognize_plate ng na outcome tid eng)) = oe_config eng"
  by (cases outcome) (simp_all add: recognize_plate_def Let_def)

lemma ocr_track_fusing:
  assumes "state track = CONFIRMED" and "\<not> plate_locked track"
    and "can_process (clk_check clk) (track_id track) eng"
    and "recognize_plate (clk_gate clk) (clk_admit clk) outcome (track_id track) eng
           = (Some (txt, conf), eng1)"
    and "readings = plate_readings track
           @ [\<lparr>r_text = txt, r_confidence = conf, r_timestamp = clk_reading clk\<rparr>]"
    and "fusion_min_samples pcfg \<le> int (length readings)"
    and "fuse_readings (oe_config eng) readings = Inr (Some fused)"
  shows "ocr_track pcfg clk outcome track eng =
     Inr (finalize_plate (result_text fused) (result_confidence fused)
            (track\<lparr>plate_readings := readings\<rparr>), eng1)"
proof -
  have c: "oe_config eng1 = oe_config eng"
    using recognize_plate_config [of "clk_gate clk" "clk_admit clk" outcome "track_id track" eng]
      assms(4) by simp
  show ?thesis
    using assms c by (simp add: ocr_track_def Let_def add_plate_reading_def)
qed

lemma lev_examples:
  "levenshtein_distance ''XYZ0000'' ''ABC1234'' = 7"
  "levenshtein_distance ''QRS5678'' ''ABC1234'' = 7"
  "levenshtein_distance ''QRS5678'' ''XYZ0000'' = 7"
  "levenshtein_distance ''ABC1Z34'' ''ABC1234'' = 1"
  "levenshtein_distance ''ABC1234'' ''ABC1234'' = 0"
  by code_simp+

lemma ex_groups_disagree:
  "group_readings disagreeing_readings =
     Inr [[example_reading ''ABC1234'' (9 / 10) 50], [example_reading ''XYZ0000'' (1 / 2) 60],
          [example_reading ''QRS5678'' (7 / 10) 100]]"
  by (simp add: group_readings_def disagreeing_readings_def example_reading_def
      list_getitem_def lev_examples)

lemma ex_groups_agree:
  "group_readings agreeing_readings =
     Inr [[example_reading ''ABC1234'' (9 / 10) 50, example_reading ''ABC1Z34'' (1 / 2) 60,
           example_reading ''ABC1234'' (7 / 10) 80, example_reading ''ABC1234'' (8 / 10) 100],
          [example_reading ''XYZ0000'' (8 / 10) 70]]"
  by (simp add: group_readings_def agreeing_readings_def example_reading_def
      list_getitem_def lev_examples)

text \<open>
  Claim C2, as the code has it. When fusion is triggered on a track's readings and the
  largest group of the greedy distance-2 grouping is smaller than \<open>fusion_min_samples\<close>,
  \<open>fuse_readings\<close> returns the reading of highest confidence among all readings (the
  earliest one on a tie), and the processing loop finalizes the plate with it: the track's
  plate text and confidence are that reading's, and \<open>plate_locked\<close> becomes true.
\<close>

theorem no_consensus_takes_best_reading_and_locks:
  assumes "state track = CONFIRMED" and "\<not> plate_locked track"
    and "can_process (clk_check clk) (track_id track) eng"
    and "recognize_plate (clk_gate clk) (clk_admit clk) outcome (track_id track) eng
           = (Some (ptext, conf), eng1)"
    and "readings = plate_readings track
           @ [\<lparr>r_text = ptext, r_confidence = conf, r_timestamp = clk_reading clk\<rparr>]"
    and "fusion_min_samples pcfg \<le> int (length readings)"
    and "fusion_min_samples (oe_config eng) \<le> int (length readings)"
    and "group_readings readings = Inr groups" and "py_max length groups = Inr g"
    and "int (length g) < fusion_min_samples (oe_config eng)"
  shows "\<exists>r. fuse_readings (oe_config eng) readings = Inr (Some (BestReading r))
           \<and> highest_confidence r readings
           \<and> ocr_track pcfg clk outcome track eng =
               Inr (track\<lparr>plate_readings := readings, plate_text := Some (r_text r),
                          plate_confidence := Some (r_confidence r), plate_locked := True\<rparr>,
                    eng1)"
proof -
  have ne: "readings \<noteq> []" using assms(5) by simp
  from fuse_no_consensus [OF ne assms(7) assms(8) assms(9) assms(10)]
  obtain r where r: "fuse_readings (oe_config eng) readings = Inr (Some (BestReading r))"
    and h: "highest_confidence r readings" by blast
  from ocr_track_fusing [OF assms(1-6) r]
  have "ocr_track pcfg clk outcome track eng =
      Inr (track\<lparr>plate_readings := readings, plate_text := Some (r_text r),
                 plate_confidence := Some (r_confidence r), plate_locked := True\<rparr>, eng1)"
    by (simp add: finalize_plate_def)
  with r h show ?thesis by blast
qed

lemma ex_recognize:
  "recognize_plate 100 100 (Plate p c) 1 idle_ocr_engine
     = (Some (p, c), idle_ocr_engine\<lparr>last_ocr_time := [1 \<mapsto> 100], total_ocr_calls := 8,
                        successful_reads := 5\<rparr>)"
  by (simp add: recognize_plate_def can_process_def idle_ocr_engine_def busy_ocr_engine_def
      example_ocr_config_def Let_def)

theorem no_consensus_takes_best_reading_and_locks_witness:
  "state disagreeing_track = CONFIRMED \<and> \<not> plate_locked disagreeing_track
   \<and> can_process 100 1 idle_ocr_engine
   \<and> group_readings disagreeing_readings =
        Inr [[example_reading ''ABC1234'' (9 / 10) 50],
             [example_reading ''XYZ0000'' (1 / 2) 60],
             [example_reading ''QRS5678'' (7 / 10) 100]]
   \<and> py_max length [[example_reading ''ABC1234'' (9 / 10) 50],
             [example_reading ''XYZ0000'' (1 / 2) 60],
             [example_reading ''QRS5678'' (7 / 10) 100]]
        = Inr [example_reading ''ABC1234'' (9 / 10) 50]
   \<and> fusion_min_samples example_ocr_config = 3
   \<and> (\<exists>r. fuse_readings example_ocr_config disagreeing_readings = Inr (Some (BestReading r))
          \<and> highest_confidence r disagreeing_readings
          \<and> ocr_track example_ocr_config example_clock (Plate ''QRS5678'' (7 / 10))
               disagreeing_track idle_ocr_engine =
             Inr (disagreeing_track\<lparr>plate_readings := disagreeing_readings,
                    plate_text := Some (r_text r),
                    plate_confidence := Some (r_confidence r), plate_locked := True\<rparr>,
                  idle_ocr_engine\<lparr>last_ocr_time := [1 \<mapsto> 100], total_ocr_calls := 8,
                    successful_reads := 5\<rparr>))"
proof -
  have h1: "state disagreeing_track = CONFIRMED" and h2: "\<not> plate_locked disagreeing_track"
    and tid: "track_id disagreeing_track = 1"
    by (simp_all add: disagreeing_track_def example_track_def)
  have h3: "can_process (clk_check example_clock) (track_id disagreeing_track) idle_ocr_engine"
    by (simp add: tid can_process_def idle_ocr_engine_def busy_ocr_engine_def
        example_ocr_config_def example_clock_def)
  have h4: "recognize_plate (clk_gate example_clock) (clk_admit example_clock)
              (Plate ''QRS5678'' (7 / 10)) (track_id disagreeing_track) idle_ocr_engine
            = (Some (''QRS5678'', 7 / 10),
               idle_ocr_engine\<lparr>last_ocr_time := [1 \<mapsto> 100], total_ocr_calls := 8,
                 successful_reads := 5\<rparr>)"
    by (simp add: tid example_clock_def ex_recognize)
  have h5: "disagreeing_readings = plate_readings disagreeing_track
           @ [\<lparr>r_text = ''QRS5678'', r_confidence = 7 / 10,
                r_timestamp = clk_reading example_clock\<rparr>]"
    by (simp add: disagreeing_readings_def disagreeing_track_def example_track_def
        example_reading_def example_clock_def)
  have cfg: "oe_config idle_ocr_engine = example_ocr_config"
    by (simp add: idle_ocr_engine_def busy_ocr_engine_def)
  have fms: "fusion_min_samples example_ocr_config = 3"
    by (simp add: example_ocr_config_def)
  have h6: "fusion_min_samples example_ocr_config \<le> int (length disagreeing_readings)"
    by (simp add: fms disagreeing_readings_def)
  have h9: "py_max length [[example_reading ''ABC1234'' (9 / 10) 50],
             [example_reading ''XYZ0000'' (1 / 2) 60],
             [example_reading ''QRS5678'' (7 / 10) 100]]
        = Inr [example_reading ''ABC1234'' (9 / 10) 50]"
    by (simp add: py_max_def)
  have h10: "int (length [example_reading ''ABC1234'' (9 / 10) 50])
       < fusion_min_samples (oe_config idle_ocr_engine)"
    by (simp add: cfg fms)
  from no_consensus_takes_best_reading_and_locks
    [OF h1 h2 h3 h4 h5 h6 _ ex_groups_disagree h9 h10] h6 cfg
  have "\<exists>r. fuse_readings example_ocr_config disagreeing_readings = Inr (Some (BestReading r))
          \<and> highest_confidence r disagreeing_readings
          \<and> ocr_track example_ocr_config example_clock (Plate ''QRS5678'' (7 / 10))
               disagreeing_track idle_ocr_engine =
             Inr (disagreeing_track\<lparr>plate_readings := disagreeing_readings,
                    plate_text := Some (r_text r),
                    plate_confidence := Some (r_confidence r), plate_locked := True\<rparr>,
                  idle_ocr_engine\<lparr>last_ocr_time := [1 \<mapsto> 100], total_ocr_calls := 8,
                    successful_reads := 5\<rparr>)"
    by simp
  moreover have "can_process 100 1 idle_ocr_engine"
    using h3 by (simp add: tid example_clock_def)
  ultimately show ?thesis
    using h1 h2 ex_groups_disagree h9 fms by blast
qed

text \<open>
  The claim as stated fails: with three readings that disagree and
  \<open>fusion_min_samples = 3\<close> the largest group has one member, and the OCR step leaves the
  track locked on the reading of highest confidence.
\<close>

theorem no_consensus_still_locks:
  "\<not> plate_locked disagreeing_track
   \<and> (case ocr_track example_ocr_config example_clock (Plate ''QRS5678'' (7 / 10))
              disagreeing_track idle_ocr_engine of
         Inl err \<Rightarrow> False
       | Inr res \<Rightarrow> plate_locked (fst res) \<and> plate_text (fst res) = Some ''ABC1234''
                     \<and> plate_confidence (fst res) = Some (9 / 10)
                     \<and> plate_readings (fst res) = disagreeing_readings)"
proof -
  have f: "fuse_readings example_ocr_config disagreeing_readings
      = Inr (Some (BestReading (example_reading ''ABC1234'' (9 / 10) 50)))"
    using ex_groups_disagree
    by (simp add: fuse_readings_def example_ocr_config_def py_max_def)
       (simp add: disagreeing_readings_def example_reading_def)
  have tid: "track_id disagreeing_track = 1"
    by (simp add: disagreeing_track_def example_track_def)
  have cfg: "oe_config idle_ocr_engine = example_ocr_config"
    by (simp add: idle_ocr_engine_def busy_ocr_engine_def)
  have "ocr_track example_ocr_config example_clock (Plate ''QRS5678'' (7 / 10))
       disagreeing_track idle_ocr_engine =
     Inr (finalize_plate ''ABC1234'' (9 / 10)
            (disagreeing_track\<lparr>plate_readings := disagreeing_readings\<rparr>),
          idle_ocr_engine\<lparr>last_ocr_time := [1 \<mapsto> 100], total_ocr_calls := 8,
             successful_reads := 5\<rparr>)"
  proof -
    have "ocr_track example_ocr_config example_clock (Plate ''QRS5678'' (7 / 10))
       disagreeing_track idle_ocr_engine =
      Inr (finalize_plate
            (result_text (BestReading (example_reading ''ABC1234'' (9 / 10) 50)))
            (result_confidence (BestReading (example_reading ''ABC1234'' (9 / 10) 50)))
            (disagreeing_track\<lparr>plate_readings := disagreeing_readings\<rparr>),
          idle_ocr_engine\<lparr>last_ocr_time := [1 \<mapsto> 100], total_ocr_calls := 8,
             successful_reads := 5\<rparr>)"
    proof (rule ocr_track_fusing)
      show "state disagreeing_track = CONFIRMED" "\<not> plate_locked disagreeing_track"
        by (simp_all add: disagreeing_track_def example_track_def)
      show "can_process (clk_check example_clock) (track_id disagreeing_track) idle_ocr_engine"
        by (simp add: tid can_process_def idle_ocr_engine_def busy_ocr_engine_def
            example_ocr_config_def example_clock_def)
      show "recognize_plate (clk_gate example_clock) (clk_admit example_clock)
              (Plate ''QRS5678'' (7 / 10)) (track_id disagreeing_track) idle_ocr_engine
            = (Some (''QRS5678'', 7 / 10),
               idle_ocr_engine\<lparr>last_ocr_time := [1 \<mapsto> 100], total_ocr_calls := 8,
                 successful_reads := 5\<rparr>)"
        by (simp add: tid example_clock_def ex_recognize)
      show "disagreeing_readings = plate_readings disagreeing_track
           @ [\<lparr>r_text = ''QRS5678'', r_confidence = 7 / 10,
                r_timestamp = clk_reading example_clock\<rparr>]"
        by (simp add: disagreeing_readings_def disagreeing_track_def example_track_def
            example_reading_def example_clock_def)
      show "fusion_min_samples example_ocr_config \<le> int (length disagreeing_readings)"
        by (simp add: example_ocr_config_def disagreeing_readings_def)
      show "fuse_readings (oe_config idle_ocr_engine) disagreeing_readings
          = Inr (Some (BestReading (example_reading ''ABC1234'' (9 / 10) 50)))"
        using f cfg by simp
    qed
    then show ?thesis by (simp add: example_reading_def)
  qed
  moreover have "\<not> plate_locked disagreeing_track"
    by (simp add: disagreeing_track_def example_track_def)
  ultimately show ?thesis by (simp add: finalize_plate_def)
qed

text \<open>
  Claim C6. When the largest group of the greedy distance-2 grouping has at least
  \<open>fusion_min_samples\<close> members, the fused text is the most frequent string of that group,
  ties in frequency broken by first appearance; the fused confidence is the mean of the
  confidences of exactly the occurrences of that string in the group (there is at least
  one); and the processing loop locks the plate on the track with that text and
  confidence. \<open>fuse_readings\<close> is a function of the configuration and the reading
  sequence alone, so the result is determined by them.
\<close>

theorem consensus_fuses_and_locks:
  assumes "state track = CONFIRMED" and "\<not> plate_locked track"
    and "can_process (clk_check clk) (track_id track) eng"
    and "recognize_plate (clk_gate clk) (clk_admit clk) outcome (track_id track) eng
           = (Some (ptext, conf), eng1)"
    and "readings = plate_readings track
           @ [\<lparr>r_text = ptext, r_confidence = conf, r_timestamp = clk_reading clk\<rparr>]"
    and "fusion_min_samples pcfg \<le> int (length readings)"
    and "fusion_min_samples (oe_config eng) \<le> int (length readings)"
    and "group_readings readings = Inr groups" and "py_max length groups = Inr g"
    and "fusion_min_samples (oe_config eng) \<le> int (length g)"
  shows "\<exists>fused_text. 
           fuse_readings (oe_config eng) readings =
             Inr (Some (Consensus fused_text
               (mean (map r_confidence (filter (\<lambda>r. r_text r = fused_text) g)))
               (int (length g))))
           \<and> most_frequent_first fused_text (map r_text g)
           \<and> filter (\<lambda>r. r_text r = fused_text) g \<noteq> []
           \<and> ocr_track pcfg clk outcome track eng =
               Inr (track\<lparr>plate_readings := readings, plate_text := Some fused_text,
                      plate_confidence :=
                        Some (mean (map r_confidence (filter (\<lambda>r. r_text r = fused_text) g))),
                      plate_locked := True\<rparr>,
                    eng1)"
proof -
  have ne: "readings \<noteq> []" using assms(5) by simp
  from fuse_consensus [OF ne assms(7) assms(8) assms(9) assms(10)]
  obtain mc where r: "fuse_readings (oe_config eng) readings =
             Inr (Some (Consensus mc
               (mean (map r_confidence (filter (\<lambda>r. r_text r = mc) g))) (int (length g))))"
    and mf: "most_frequent_first mc (map r_text g)"
    and nf: "filter (\<lambda>r. r_text r = mc) g \<noteq> []" by blast
  from ocr_track_fusing [OF assms(1-6) r]
  have "ocr_track pcfg clk outcome track eng =
      Inr (track\<lparr>plate_readings := readings, plate_text := Some mc,
             plate_confidence := Some (mean (map r_confidence (filter (\<lambda>r. r_text r = mc) g))),
             plate_locked := True\<rparr>, eng1)"
    by (simp add: finalize_plate_def)
  with r mf nf show ?thesis by blast
qed

lemma ex_most_frequent_unique:
  assumes "most_frequent_first t [''ABC1234'', ''ABC1Z34'', ''ABC1234'', ''ABC1234'']"
  shows "t = ''ABC1234''"
proof (rule ccontr)
  assume n: "t \<noteq> ''ABC1234''"
  from assms have "t \<in> set [''ABC1234'', ''ABC1Z34'', ''ABC1234'', ''ABC1234'']"
    and "count_list [''ABC1234'', ''ABC1Z34'', ''ABC1234'', ''ABC1234''] ''ABC1234''
         \<le> count_list [''ABC1234'', ''ABC1Z34'', ''ABC1234'', ''ABC1234''] t"
    by (simp_all add: most_frequent_first_def)
  with n show False by auto
qed

theorem consensus_fuses_and_locks_witness:
  "state agreeing_track = CONFIRMED \<and> \<not> plate_locked agreeing_track
   \<and> can_process 100 1 idle_ocr_engine
   \<and> fusion_min_samples example_ocr_config = 3
   \<and> fuse_readings example_ocr_config agreeing_readings =
        Inr (Some (Consensus ''ABC1234'' (8 / 10) 4))
   \<and> ocr_track example_ocr_config example_clock (Plate ''ABC1234'' (8 / 10))
        agreeing_track idle_ocr_engine =
      Inr (agreeing_track\<lparr>plate_readings := agreeing_readings,
             plate_text := Some ''ABC1234'', plate_confidence := Some (8 / 10),
             plate_locked := True\<rparr>,
           idle_ocr_engine\<lparr>last_ocr_time := [1 \<mapsto> 100], total_ocr_calls := 8,
             successful_reads := 5\<rparr>)"
proof -
  let ?g = "[example_reading ''ABC1234'' (9 / 10) 50, example_reading ''ABC1Z34'' (1 / 2) 60,
           example_reading ''ABC1234'' (7 / 10) 80, example_reading ''ABC1234'' (8 / 10) 100]"
  let ?groups = "[?g, [example_reading ''XYZ0000'' (8 / 10) 70]]"
  have h1: "state agreeing_track = CONFIRMED" and h2: "\<not> plate_locked agreeing_track"
    and tid: "track_id agreeing_track = 1"
    by (simp_all add: agreeing_track_def example_track_def)
  have h3: "can_process (clk_check example_clock) (track_id agreeing_track) idle_ocr_engine"
    by (simp add: tid can_process_def idle_ocr_engine_def busy_ocr_engine_def
        example_ocr_config_def example_clock_def)
  have h4: "recognize_plate (clk_gate example_clock) (clk_admit example_clock)
              (Plate ''ABC1234'' (8 / 10)) (track_id agreeing_track) idle_ocr_engine
            = (Some (''ABC1234'', 8 / 10),
               idle_ocr_engine\<lparr>last_ocr_time := [1 \<mapsto> 100], total_ocr_calls := 8,
                 successful_reads := 5\<rparr>)"
    by (simp add: tid example_clock_def ex_recognize)
  have h5: "agreeing_readings = plate_readings agreeing_track
           @ [\<lparr>r_text = ''ABC1234'', r_confidence = 8 / 10,
                r_timestamp = clk_reading example_clock\<rparr>]"
    by (simp add: agreeing_readings_def agreeing_track_def example_track_def
        example_reading_def example_clock_def)
  have cfg: "oe_config idle_ocr_engine = example_ocr_config"
    by (simp add: idle_ocr_engine_def busy_ocr_engine_def)
  have fms: "fusion_min_samples example_ocr_config = 3"
    by (simp add: example_ocr_config_def)
  have h6: "fusion_min_samples example_ocr_config \<le> int (length agreeing_readings)"
    by (simp add: fms agreeing_readings_def)
  have h9: "py_max length ?groups = Inr ?g"
    by (simp add: py_max_def)
  have h10: "fusion_min_samples (oe_config idle_ocr_engine) \<le> int (length ?g)"
    by (simp add: cfg fms)
  from consensus_fuses_and_locks [OF h1 h2 h3 h4 h5 h6 _ ex_groups_agree h9 h10] h6 cfg
  obtain ft where
    f: "fuse_readings example_ocr_config agreeing_readings =
          Inr (Some (Consensus ft
            (mean (map r_confidence (filter (\<lambda>r. r_text r = ft) ?g))) (int (length ?g))))"
    and mf: "most_frequent_first ft (map r_text ?g)"
    and o: "ocr_track example_ocr_config example_clock (Plate ''ABC1234'' (8 / 10))
        agreeing_track idle_ocr_engine =
      Inr (agreeing_track\<lparr>plate_readings := agreeing_readings,
             plate_text := Some ft,
             plate_confidence := Some (mean (map r_confidence (filter (\<lambda>r. r_text r = ft) ?g))),
             plate_locked := True\<rparr>,
           idle_ocr_engine\<lparr>last_ocr_time := [1 \<mapsto> 100], total_ocr_calls := 8,
             successful_reads := 5\<rparr>)"
    by auto
  have ft: "ft = ''ABC1234''"
    using mf by (intro ex_most_frequent_unique) (simp add: example_reading_def)
  have m: "mean (map r_confidence (filter (\<lambda>r. r_text r = ''ABC1234'') ?g)) = 8 / 10"
    by (simp add: mean_def example_reading_def)
  have "can_process 100 1 idle_ocr_engine"
    using h3 by (simp add: tid example_clock_def)
  then show ?thesis
    using h1 h2 fms f o unfolding ft m by simp
qed

section \<open>Deduplication of entry events\<close>

text \<open>
  Two entry events that carry the same plate text (a text that passes the source's
  truth test: neither \<open>None\<close> nor empty).
\<close>

text \<open>
  What the proof keeps about the events emitted so far: each entry event with a plate is
  no later than the last clock reading \<open>T\<close>, and either its plate is cached with a time
  no earlier than the event, or the cache has dropped the plate and the event is at least
  the window old.
\<close>

lemma truthy_plate_Some: "truthy_plate track = Some p \<longleftrightarrow> plate_text track = Some p \<and> p \<noteq> []"
  by (auto simp: truthy_plate_def split: option.splits)

lemma process_track_outcome:
  assumes "process_track clk track h ee = (ev, track', ee')"
  shows "ee_config ee' = ee_config ee
     \<and> (case ev of
          None \<Rightarrow> recent_plates ee' = recent_plates ee
        | Some e \<Rightarrow>
            \<not> is_duplicate_entry (t_dup clk) track ee
            \<and> ev_timestamp e = t_event clk \<and> ev_plate_text e = plate_text track
            \<and> recent_plates ee' =
                 (case truthy_plate track of
                    None \<Rightarrow> recent_plates ee
                  | Some p \<Rightarrow> (recent_plates ee)(p \<mapsto> t_cache clk)))"
  using assms
  by (auto simp: process_track_def Let_def create_entry_event_def create_exit_event_def
      update_dedup_cache_def is_duplicate_exit_def
      split: VehicleState.splits if_splits option.splits)

lemma dedup_inv_mono: "dedup_inv w T evs ee \<Longrightarrow> T \<le> T' \<Longrightarrow> recent_plates ee' = recent_plates ee
    \<Longrightarrow> dedup_inv w T' evs ee'"
proof -
  assume inv: "dedup_inv w T evs ee" and le: "T \<le> T'" and rp: "recent_plates ee' = recent_plates ee"
  show "dedup_inv w T' evs ee'"
    unfolding dedup_inv_def rp
  proof (intro ballI allI impI)
    fix e p assume e: "e \<in> set evs"
      and ep: "ev_type e = ''entry'' \<and> ev_plate_text e = Some p \<and> p \<noteq> []"
    from inv e ep have a: "ev_timestamp e \<le> T"
      and b: "case recent_plates ee p of None \<Rightarrow> ev_timestamp e + w \<le> T
               | Some t \<Rightarrow> ev_timestamp e \<le> t"
      unfolding dedup_inv_def by blast+
    from b le have "case recent_plates ee p of None \<Rightarrow> ev_timestamp e + w \<le> T'
               | Some t \<Rightarrow> ev_timestamp e \<le> t"
      by (cases "recent_plates ee p") simp_all
    with a le show "ev_timestamp e \<le> T'
       \<and> (case recent_plates ee p of None \<Rightarrow> ev_timestamp e + w \<le> T'
               | Some t \<Rightarrow> ev_timestamp e \<le> t)"
      by simp
  qed
qed

lemma dedup_step_process:
  assumes inv: "dedup_inv w T prior ee" and sp: "spaced w prior"
    and w: "w = real_of_int (dedup_window (ee_config ee))"
    and times: "T \<le> t_dup clk" "t_dup clk \<le> t_event clk" "t_event clk \<le> t_cache clk"
    and pt: "process_track clk track h ee = (ev, track', ee')"
  shows "dedup_inv w (t_cache clk) (prior @ (case ev of None \<Rightarrow> [] | Some e \<Rightarrow> [e])) ee'
     \<and> spaced w (prior @ (case ev of None \<Rightarrow> [] | Some e \<Rightarrow> [e]))"
proof (cases ev)
  case None
  with process_track_outcome [OF pt] have "recent_plates ee' = recent_plates ee" by simp
  with inv times have "dedup_inv w (t_cache clk) prior ee'"
    by (simp add: dedup_inv_mono [of w T prior ee])
  with None sp show ?thesis by simp
next
  case (Some e)
  with process_track_outcome [OF pt] have
    nd: "\<not> is_duplicate_entry (t_dup clk) track ee"
    and ts: "ev_timestamp e = t_event clk" and pl: "ev_plate_text e = plate_text track"
    and rp: "recent_plates ee' =
                 (case truthy_plate track of
                    None \<Rightarrow> recent_plates ee
                  | Some p \<Rightarrow> (recent_plates ee)(p \<mapsto> t_cache clk))"
    by simp_all
  have T: "T \<le> t_cache clk" "T \<le> t_event clk" using times by simp_all
  have old: "\<forall>a \<in> set prior. same_plate_entries a e \<longrightarrow> w \<le> ev_timestamp e - ev_timestamp a"
  proof (intro ballI impI)
    fix a assume a: "a \<in> set prior" and c: "same_plate_entries a e"
    from c obtain p where ap: "ev_plate_text a = Some p"
      by (cases "ev_plate_text a") (auto simp: same_plate_entries_def)
    with c pl have p: "ev_type a = ''entry''" "ev_plate_text a = Some p" "p \<noteq> []"
      "plate_text track = Some p"
      by (auto simp: same_plate_entries_def)
    then have tp: "truthy_plate track = Some p" by (simp add: truthy_plate_Some)
    from inv a p have aT: "ev_timestamp a \<le> T"
      and ac: "case recent_plates ee p of None \<Rightarrow> ev_timestamp a + w \<le> T
                 | Some t \<Rightarrow> ev_timestamp a \<le> t"
      by (auto simp: dedup_inv_def)
    show "w \<le> ev_timestamp e - ev_timestamp a"
    proof (cases "recent_plates ee p")
      case None
      with ac have "ev_timestamp a + w \<le> T" by simp
      with T ts show ?thesis by simp
    next
      case (Some t)
      with ac have "ev_timestamp a \<le> t" by simp
      moreover have "w \<le> t_dup clk - t"
        using nd tp Some w by (simp add: is_duplicate_entry_def Let_def split: if_splits)
      ultimately show ?thesis using ts times by simp
    qed
  qed
  have sp': "spaced w (prior @ [e])"
    using sp old by (simp add: spaced_def sorted_wrt_append)
  have inv': "dedup_inv w (t_cache clk) (prior @ [e]) ee'"
    unfolding dedup_inv_def
  proof (intro ballI allI impI)
    fix a p assume a: "a \<in> set (prior @ [e])"
      and ap: "ev_type a = ''entry'' \<and> ev_plate_text a = Some p \<and> p \<noteq> []"
    have aT: "ev_timestamp a \<le> T \<or> a = e"
      using a ap inv by (auto simp: dedup_inv_def)
    then have le: "ev_timestamp a \<le> t_cache clk" using T ts times by auto
    have "case recent_plates ee' p of None \<Rightarrow> ev_timestamp a + w \<le> t_cache clk
            | Some t \<Rightarrow> ev_timestamp a \<le> t"
    proof (cases "truthy_plate track = Some p")
      case True
      then have "recent_plates ee' p = Some (t_cache clk)" using rp by simp
      with le show ?thesis by simp
    next
      case False
      then have ne: "a \<noteq> e" using ap pl by (auto simp: truthy_plate_Some)
      then have ain: "a \<in> set prior" using a by simp
      have same: "recent_plates ee' p = recent_plates ee p"
        using False rp by (auto split: option.splits)
      from inv ain ap have "case recent_plates ee p of None \<Rightarrow> ev_timestamp a + w \<le> T
            | Some t \<Rightarrow> ev_timestamp a \<le> t"
        by (auto simp: dedup_inv_def)
      then show ?thesis using same T by (auto split: option.splits)
    qed
    with le show "ev_timestamp a \<le> t_cache clk
       \<and> (case recent_plates ee' p of None \<Rightarrow> ev_timestamp a + w \<le> t_cache clk
            | Some t \<Rightarrow> ev_timestamp a \<le> t)"
      by simp
  qed
  from inv' sp' Some show ?thesis by simp
qed

lemma dedup_step_cleanup:
  assumes inv: "dedup_inv w T prior ee"
    and w: "w = real_of_int (dedup_window (ee_config ee))"
    and times: "T \<le> now"
  shows "dedup_inv w now prior (cleanup_old_entries now ee)"
  unfolding dedup_inv_def
proof (intro ballI allI impI)
  fix a p assume a: "a \<in> set prior"
    and ap: "ev_type a = ''entry'' \<and> ev_plate_text a = Some p \<and> p \<noteq> []"
  from inv a ap have aT: "ev_timestamp a \<le> T"
    and ac: "case recent_plates ee p of None \<Rightarrow> ev_timestamp a + w \<le> T
               | Some t \<Rightarrow> ev_timestamp a \<le> t"
    by (auto simp: dedup_inv_def)
  have "case recent_plates (cleanup_old_entries now ee) p of
          None \<Rightarrow> ev_timestamp a + w \<le> now | Some t \<Rightarrow> ev_timestamp a \<le> t"
  proof (cases "recent_plates ee p")
    case None
    with ac times show ?thesis by (simp add: cleanup_old_entries_def Let_def)
  next
    case (Some t)
    with ac have at: "ev_timestamp a \<le> t" by simp
    show ?thesis
    proof (cases "t < now - real_of_int (dedup_window (ee_config ee) * 2)")
      case True
      then have "t + 2 * w < now" using w by simp
      with at aT times have "ev_timestamp a + w \<le> now" by (cases "0 \<le> w") auto
      with Some True show ?thesis by (simp add: cleanup_old_entries_def Let_def)
    next
      case False
      with Some at show ?thesis by (simp add: cleanup_old_entries_def Let_def)
    qed
  qed
  with aT times show "ev_timestamp a \<le> now
     \<and> (case recent_plates (cleanup_old_entries now ee) p of
          None \<Rightarrow> ev_timestamp a + w \<le> now | Some t \<Rightarrow> ev_timestamp a \<le> t)"
    by simp
qed

lemma cleanup_config: "ee_config (cleanup_old_entries now ee) = ee_config ee"
  by (simp add: cleanup_old_entries_def Let_def)

lemma run_engine_spaced:
  assumes "sorted (T # concat (map clock_readings calls))"
    and "dedup_inv w T prior ee" and "spaced w prior"
    and "w = real_of_int (dedup_window (ee_config ee))"
  shows "spaced w (prior @ fst (run_engine calls ee))"
  using assms
proof (induction calls arbitrary: T prior ee)
  case Nil
  then show ?case by simp
next
  case (Cons call calls)
  show ?case
  proof (cases call)
    case (Process_track clk track h)
    obtain ev track' ee' where pt: "process_track clk track h ee = (ev, track', ee')"
      by (cases "process_track clk track h ee") auto
    have times: "T \<le> t_dup clk" "t_dup clk \<le> t_event clk" "t_event clk \<le> t_cache clk"
      and rest: "sorted (t_cache clk # concat (map clock_readings calls))"
      using Cons.prems(1) Process_track by auto
    let ?new = "case ev of None \<Rightarrow> [] | Some e \<Rightarrow> [e]"
    from dedup_step_process [OF Cons.prems(2,3,4) times pt]
    have inv': "dedup_inv w (t_cache clk) (prior @ ?new) ee'" and sp': "spaced w (prior @ ?new)"
      by simp_all
    have cfg: "w = real_of_int (dedup_window (ee_config ee'))"
      using process_track_outcome [OF pt] Cons.prems(4) by simp
    from Cons.IH [OF rest inv' sp' cfg]
    show ?thesis using Process_track pt by (simp add: Let_def)
  next
    case (Cleanup now)
    have times: "T \<le> now" and rest: "sorted (now # concat (map clock_readings calls))"
      using Cons.prems(1) Cleanup by auto
    have inv': "dedup_inv w now prior (cleanup_old_entries now ee)"
      using Cons.prems(2,4) times by (rule dedup_step_cleanup)
    have cfg: "w = real_of_int (dedup_window (ee_config (cleanup_old_entries now ee)))"
      using Cons.prems(4) by (simp add: cleanup_config)
    from Cons.IH [OF rest inv' Cons.prems(3) cfg]
    show ?thesis using Cleanup by simp
  qed
qed

lemma duplicate_suppressed:
  assumes "truthy_plate track = Some p" and "recent_plates ee p = Some t"
    and "t_dup clk - t < real_of_int (dedup_window (ee_config ee))"
  shows "fst (process_track clk track h ee) = None"
proof -
  obtain ev track' ee' where pt: "process_track clk track h ee = (ev, track', ee')"
    by (cases "process_track clk track h ee") auto
  have "is_duplicate_entry (t_dup clk) track ee"
    using assms by (simp add: is_duplicate_entry_def Let_def)
  with process_track_outcome [OF pt] have "ev = None"
    by (cases ev) auto
  with pt show ?thesis by simp
qed

lemma emitted_event_refreshes_cache:
  assumes "fst (process_track clk track h ee) = Some ev" and "truthy_plate track = Some p"
  shows "ev_plate_text ev = Some p \<and> ev_timestamp ev = t_event clk
     \<and> recent_plates (snd (snd (process_track clk track h ee))) p = Some (t_cache clk)"
proof -
  obtain ev0 track' ee' where pt: "process_track clk track h ee = (ev0, track', ee')"
    by (cases "process_track clk track h ee") auto
  with assms(1) have "ev0 = Some ev" by simp
  with process_track_outcome [OF pt] assms(2) pt show ?thesis
    by (auto simp: truthy_plate_Some)
qed

lemma run_engine_entries_spaced:
  assumes "sorted (concat (map clock_readings calls))"
  shows "spaced (real_of_int (dedup_window (ee_config ee))) (fst (run_engine calls ee))"
proof (cases calls)
  case Nil
  then show ?thesis by (simp add: spaced_def)
next
  case (Cons call rest)
  let ?xs = "concat (map clock_readings calls)"
  have ne: "?xs \<noteq> []" using Cons by (cases call) auto
  then have s: "sorted (hd ?xs # ?xs)" using assms by (cases ?xs) auto
  have i: "dedup_inv (real_of_int (dedup_window (ee_config ee))) (hd ?xs) [] ee"
    by (simp add: dedup_inv_def)
  have p: "spaced (real_of_int (dedup_window (ee_config ee))) []"
    by (simp add: spaced_def)
  from run_engine_spaced [OF s i p refl] show ?thesis by simp
qed

text \<open>
  Claim C1. On one camera's event engine, with a clock that does not run backwards, any
  two entry events emitted with the same plate text are at least \<open>dedup_window\<close> seconds
  apart. A track whose plate text is in the deduplication cache with a time less than
  \<open>dedup_window\<close> seconds old gets no event, and every emitted event that carries a plate
  text stores that plate in the cache at the clock reading taken right after the event's
  timestamp.
\<close>

theorem entry_events_deduplicated:
  "(sorted (concat (map clock_readings calls)) \<and> i < j
      \<and> j < length (fst (run_engine calls ee))
      \<and> same_plate_entries (fst (run_engine calls ee) ! i) (fst (run_engine calls ee) ! j)
    \<longrightarrow> real_of_int (dedup_window (ee_config ee))
          \<le> ev_timestamp (fst (run_engine calls ee) ! j)
            - ev_timestamp (fst (run_engine calls ee) ! i))
   \<and> (truthy_plate track = Some p \<and> recent_plates ee p = Some t
      \<and> t_dup clk - t < real_of_int (dedup_window (ee_config ee))
    \<longrightarrow> fst (process_track clk track h ee) = None)
   \<and> (fst (process_track clk track h ee) = Some ev \<and> truthy_plate track = Some p
    \<longrightarrow> ev_plate_text ev = Some p \<and> ev_timestamp ev = t_event clk
        \<and> recent_plates (snd (snd (process_track clk track h ee))) p = Some (t_cache clk))"
proof (intro conjI impI)
  assume a: "sorted (concat (map clock_readings calls)) \<and> i < j
      \<and> j < length (fst (run_engine calls ee))
      \<and> same_plate_entries (fst (run_engine calls ee) ! i) (fst (run_engine calls ee) ! j)"
  then have "spaced (real_of_int (dedup_window (ee_config ee))) (fst (run_engine calls ee))"
    by (simp add: run_engine_entries_spaced)
  then show "real_of_int (dedup_window (ee_config ee))
          \<le> ev_timestamp (fst (run_engine calls ee) ! j)
            - ev_timestamp (fst (run_engine calls ee) ! i)"
    using a unfolding spaced_def sorted_wrt_iff_nth_less by blast
next
  assume "truthy_plate track = Some p \<and> recent_plates ee p = Some t
      \<and> t_dup clk - t < real_of_int (dedup_window (ee_config ee))"
  then show "fst (process_track clk track h ee) = None"
    by (simp add: duplicate_suppressed)
next
  assume a: "fst (process_track clk track h ee) = Some ev \<and> truthy_plate track = Some p"
  then show "ev_plate_text ev = Some p" "ev_timestamp ev = t_event clk"
    "recent_plates (snd (snd (process_track clk track h ee))) p = Some (t_cache clk)"
    using emitted_event_refreshes_cache [of clk track h ee ev p] by simp_all
qed

lemma ex_run_events:
  "map (\<lambda>e. (ev_type e, ev_track_id e, ev_plate_text e, ev_timestamp e))
     (fst (run_engine example_calls approaching_engine))
   = [(''entry'', 1, Some ''ABC1234'', 10), (''entry'', 2, Some ''ABC1234'', 80)]"
  by code_simp

theorem entry_events_deduplicated_witness:
  "sorted (concat (map clock_readings example_calls)) \<and> (0::nat) < 1
   \<and> 1 < length (fst (run_engine example_calls approaching_engine))
   \<and> same_plate_entries (fst (run_engine example_calls approaching_engine) ! 0)
        (fst (run_engine example_calls approaching_engine) ! 1)
   \<and> real_of_int (dedup_window (ee_config approaching_engine))
        \<le> ev_timestamp (fst (run_engine example_calls approaching_engine) ! 1)
          - ev_timestamp (fst (run_engine example_calls approaching_engine) ! 0)
   \<and> truthy_plate (plated_track 2) = Some ''ABC1234''
   \<and> recent_plates cached_engine ''ABC1234'' = Some 10
   \<and> t_dup (tick 20) - 10 < real_of_int (dedup_window (ee_config cached_engine))
   \<and> fst (process_track (tick 20) (plated_track 2) 720 cached_engine) = None
   \<and> fst (process_track (tick 80) (plated_track 2) 720 cached_engine) \<noteq> None
   \<and> recent_plates (snd (snd (process_track (tick 80) (plated_track 2) 720 cached_engine)))
        ''ABC1234'' = Some (t_cache (tick 80))"
proof -
  let ?evs = "fst (run_engine example_calls approaching_engine)"
  have s: "sorted (concat (map clock_readings example_calls))"
    by code_simp
  have l: "1 < length ?evs"
    using ex_run_events [THEN arg_cong, of length] by simp
  have sp: "same_plate_entries (?evs ! 0) (?evs ! 1)"
    by code_simp
  from entry_events_deduplicated [where calls = example_calls and i = 0 and j = 1
      and ee = approaching_engine] s l sp
  have d: "real_of_int (dedup_window (ee_config approaching_engine))
        \<le> ev_timestamp (?evs ! 1) - ev_timestamp (?evs ! 0)"
    by simp
  have tp: "truthy_plate (plated_track 2) = Some ''ABC1234''"
    by code_simp
  have rc: "recent_plates cached_engine ''ABC1234'' = Some 10"
    by code_simp
  have lt: "t_dup (tick 20) - 10 < real_of_int (dedup_window (ee_config cached_engine))"
    by code_simp
  from entry_events_deduplicated [where ee = cached_engine and track = "plated_track 2"
      and p = "''ABC1234''" and t = 10 and clk = "tick 20" and h = 720] tp rc lt
  have n: "fst (process_track (tick 20) (plated_track 2) 720 cached_engine) = None"
    by blast
  have ne: "fst (process_track (tick 80) (plated_track 2) 720 cached_engine) \<noteq> None"
    by code_simp
  then obtain ev where e: "fst (process_track (tick 80) (plated_track 2) 720 cached_engine) = Some ev"
    by blast
  from entry_events_deduplicated [where ee = cached_engine and track = "plated_track 2"
      and p = "''ABC1234''" and clk = "tick 80" and h = 720 and ev = ev] tp e
  have r: "recent_plates (snd (snd (process_track (tick 80) (plated_track 2) 720 cached_engine)))
        ''ABC1234'' = Some (t_cache (tick 80))"
    by blast
  show ?thesis using s l sp d tp rc lt n ne r by simp
qed

section \<open>The tracker update\<close>

lemma keys_update:
  "keys (AList.update k v d) = (if k \<in> set (keys d) then keys d else keys d @ [k])"
  by (simp add: keys_def update_keys)

lemma keys_map_entry: "keys (AList.map_entry k f d) = keys d"
  by (induction d) (auto simp: keys_def)

lemma keys_delete: "keys (AList.delete k d) = removeAll k (keys d)"
  by (simp add: keys_def delete_keys)

lemma dict_getitem_Inr: "dict_getitem d k = Inr v \<longleftrightarrow> map_of d k = Some v"
  by (simp add: dict_getitem_def split: option.splits)

lemma map_of_Some_keys: "map_of d k = Some v \<Longrightarrow> k \<in> set (keys d)"
  by (auto simp: keys_def dest: map_of_SomeD intro: rev_image_eqI)

lemma map_of_None_keys: "map_of d k = None \<longleftrightarrow> k \<notin> set (keys d)"
  by (simp add: keys_def map_of_eq_None_iff)

lemma same_plate_refl [simp]: "same_plate t t"
  by (simp add: same_plate_def)

lemma same_plate_trans: "same_plate a b \<Longrightarrow> same_plate b c \<Longrightarrow> same_plate a c"
  by (simp add: same_plate_def)

lemma for_loop_inv:
  assumes "for_loop body xs s = Inr s'" and "I xs s"
    and "\<And>x rest s s1. I (x # rest) s \<Longrightarrow> body x s = Inr s1 \<Longrightarrow> I rest s1"
  shows "I [] s'"
  using assms(1,2)
proof (induction xs arbitrary: s)
  case Nil
  then show ?case by simp
next
  case (Cons x xs)
  from Cons.prems(1) obtain s1 where b: "body x s = Inr s1" and r: "for_loop body xs s1 = Inr s'"
    by (auto split: sum.splits)
  from assms(3) [OF Cons.prems(2) b] have "I xs s1" .
  with Cons.IH r show ?case by blast
qed

lemma predicted_track_props: "predicted t (predicted_track b t)"
  by (simp add: predicted_def predicted_track_def same_plate_def)

lemma matched_track_props: "matched_upd t (matched_track cfg d kf vt now t)"
  by (simp add: matched_upd_def matched_track_def same_plate_def update_bbox_def Let_def)

lemma unmatched_track_props: "handled (max_lost_frames cfg) t (unmatched_track cfg t)"
  by (simp add: handled_def unmatched_track_def same_plate_def Let_def)

lemma fresh_track_props: "new_track (fresh_track tid cam vt now d)"
  by (simp add: new_track_def fresh_track_def)

lemma predict_step_effect:
  assumes "k \<in> set (keys (kalman_filters e))"
  shows "same_frame e (predict_step (k, kf) e)"
    and "tracks_rel (\<lambda>k' t t'. if k' = k then predicted t t' else t' = t) e (predict_step (k, kf) e)"
proof -
  show "same_frame e (predict_step (k, kf) e)"
    using assms
    by (simp add: predict_step_def Let_def same_frame_def keys_update keys_map_entry)
  show "tracks_rel (\<lambda>k' t t'. if k' = k then predicted t t' else t' = t) e (predict_step (k, kf) e)"
    unfolding tracks_rel_def
  proof (intro allI impI)
    fix k' t assume m: "map_of (tracks e) k' = Some t"
    show "\<exists>t'. map_of (tracks (predict_step (k, kf) e)) k' = Some t'
            \<and> (if k' = k then predicted t t' else t' = t)"
    proof (cases "k' = k")
      case True
      then have "k \<in> set (keys (tracks e))" using m by (auto intro: map_of_Some_keys)
      then have "map_of (tracks (predict_step (k, kf) e)) k
          = Some (predicted_track (get_bbox (predict kf)) t)"
        using m True by (simp add: predict_step_def Let_def map_of_map_entry)
      then show ?thesis using True predicted_track_props by simp
    next
      case False
      then have "map_of (tracks (predict_step (k, kf) e)) k' = Some t"
        using m by (simp add: predict_step_def Let_def map_of_map_entry)
      then show ?thesis using False by simp
    qed
  qed
qed

lemma update_matched_effect:
  assumes "update_matched env dets (k, j) e = Inr e'"
  shows "same_frame e e'"
    and "tracks_rel (\<lambda>k' t t'. if k' = k then matched_upd t t' else t' = t) e e'"
proof -
  from assms obtain detection track kf0 kf vt where
    g: "map_of (tracks e) k = Some track" "map_of (kalman_filters e) k = Some kf0"
    and e0: "e' = e\<lparr>kalman_filters := AList.update k kf (kalman_filters e),
                    tracks := AList.update k
                      (matched_track (te_config e) detection kf vt (now_update_bbox env k) track)
                      (tracks e)\<rparr>"
    by (auto simp: update_matched_def Let_def dict_getitem_Inr split: sum.splits)
  define t' where "t' = matched_track (te_config e) detection kf vt (now_update_bbox env k) track"
  have t': "matched_upd track t'" by (simp add: t'_def matched_track_props)
  have e': "e' = e\<lparr>kalman_filters := AList.update k kf (kalman_filters e),
                    tracks := AList.update k t' (tracks e)\<rparr>"
    using e0 by (simp add: t'_def)
  have k1: "k \<in> set (keys (tracks e))" and k2: "k \<in> set (keys (kalman_filters e))"
    using g by (auto intro: map_of_Some_keys)
  show "same_frame e e'"
    using k1 k2 by (simp add: e' same_frame_def keys_update)
  show "tracks_rel (\<lambda>k' t t'. if k' = k then matched_upd t t' else t' = t) e e'"
    using g t' by (simp add: e' tracks_rel_def update_conv')
qed

lemma handle_unmatched_effect:
  assumes "handle_unmatched k e = Inr e'"
  shows "same_frame e e'"
    and "kalman_filters e' = kalman_filters e"
    and "tracks_rel (\<lambda>k' t t'. if k' = k then handled (max_lost_frames (te_config e)) t t'
                               else t' = t) e e'"
proof -
  from assms obtain track where g: "map_of (tracks e) k = Some track"
    and e': "e' = e\<lparr>tracks := AList.update k (unmatched_track (te_config e) track) (tracks e)\<rparr>"
    by (auto simp: handle_unmatched_def dict_getitem_Inr split: sum.splits)
  have k1: "k \<in> set (keys (tracks e))" using g by (rule map_of_Some_keys)
  show "same_frame e e'" using k1 by (simp add: e' same_frame_def keys_update)
  show "kalman_filters e' = kalman_filters e" by (simp add: e')
  show "tracks_rel (\<lambda>k' t t'. if k' = k then handled (max_lost_frames (te_config e)) t t'
                               else t' = t) e e'"
    using g unmatched_track_props by (simp add: e' tracks_rel_def update_conv')
qed

lemma create_unmatched_effect:
  assumes "create_unmatched env dets j e = Inr e'"
  shows "te_config e' = te_config e" and "te_camera_id e' = te_camera_id e"
    and "next_track_id e' = next_track_id e + 1"
    and "keys (tracks e') = (if next_track_id e \<in> set (keys (tracks e)) then keys (tracks e)
                             else keys (tracks e) @ [next_track_id e])"
    and "keys (kalman_filters e') =
           (if next_track_id e \<in> set (keys (kalman_filters e)) then keys (kalman_filters e)
            else keys (kalman_filters e) @ [next_track_id e])"
    and "\<exists>t. new_track t \<and> map_of (tracks e') = (map_of (tracks e))(next_track_id e \<mapsto> t)"
proof -
  from assms obtain detection vt where
    e0: "e' = e\<lparr>next_track_id := next_track_id e + 1,
                    tracks := AList.update (next_track_id e)
                      (fresh_track (next_track_id e) (te_camera_id e) vt
                         (now_create_track env j) detection) (tracks e),
                    kalman_filters := AList.update (next_track_id e)
                      (KalmanFilter_init (det_bbox detection)) (kalman_filters e),
                    total_tracks := total_tracks e + 1\<rparr>"
    by (auto simp: create_unmatched_def create_track_def Let_def split: sum.splits)
  define t where "t = fresh_track (next_track_id e) (te_camera_id e) vt
                         (now_create_track env j) detection"
  define kf where "kf = KalmanFilter_init (det_bbox detection)"
  have t: "new_track t" by (simp add: t_def fresh_track_props)
  have e': "e' = e\<lparr>next_track_id := next_track_id e + 1,
                    tracks := AList.update (next_track_id e) t (tracks e),
                    kalman_filters := AList.update (next_track_id e) kf (kalman_filters e),
                    total_tracks := total_tracks e + 1\<rparr>"
    using e0 by (simp add: t_def kf_def)
  show "te_config e' = te_config e" "te_camera_id e' = te_camera_id e"
    "next_track_id e' = next_track_id e + 1"
    by (simp_all add: e')
  show "keys (tracks e') = (if next_track_id e \<in> set (keys (tracks e)) then keys (tracks e)
                             else keys (tracks e) @ [next_track_id e])"
    by (simp add: e' keys_update)
  show "keys (kalman_filters e') =
           (if next_track_id e \<in> set (keys (kalman_filters e)) then keys (kalman_filters e)
            else keys (kalman_filters e) @ [next_track_id e])"
    by (simp add: e' keys_update)
  show "\<exists>t. new_track t \<and> map_of (tracks e') = (map_of (tracks e))(next_track_id e \<mapsto> t)"
    using t by (auto simp: e' update_conv')
qed

lemma remove_deleted_effect:
  assumes "remove_deleted k e = Inr e'"
  shows "te_config e' = te_config e" and "te_camera_id e' = te_camera_id e"
    and "next_track_id e' = next_track_id e"
    and "tracks e' = AList.delete k (tracks e)"
    and "kalman_filters e' = AList.delete k (kalman_filters e)"
  using assms
  by (auto simp: remove_deleted_def dict_delitem_def split: sum.splits if_splits)

lemma same_frame_refl [simp]: "same_frame e e"
  by (simp add: same_frame_def)

lemma same_frame_trans: "same_frame a b \<Longrightarrow> same_frame b c \<Longrightarrow> same_frame a c"
  by (simp add: same_frame_def)

lemma tracks_rel_trans:
  assumes "tracks_rel R1 a b" and "tracks_rel R2 b c"
    and "\<And>k x y z. R1 k x y \<Longrightarrow> R2 k y z \<Longrightarrow> R3 k x z"
  shows "tracks_rel R3 a c"
  unfolding tracks_rel_def
proof (intro allI impI)
  fix k t assume "map_of (tracks a) k = Some t"
  with assms(1) obtain t1 where t1: "map_of (tracks b) k = Some t1" "R1 k t t1"
    unfolding tracks_rel_def by blast
  with assms(2) obtain t2 where t2: "map_of (tracks c) k = Some t2" "R2 k t1 t2"
    unfolding tracks_rel_def by blast
  with t1 assms(3) show "\<exists>t'. map_of (tracks c) k = Some t' \<and> R3 k t t'" by blast
qed

lemma tracks_rel_refl: "(\<And>k t. R k t t) \<Longrightarrow> tracks_rel R e e"
  by (simp add: tracks_rel_def)

lemma matched_upd_trans: "matched_upd a b \<Longrightarrow> matched_upd b c \<Longrightarrow> matched_upd a c"
  by (simp add: matched_upd_def same_plate_def)

lemma handled_trans: "handled m a b \<Longrightarrow> handled m b c \<Longrightarrow> handled m a c"
  by (auto simp: handled_def same_plate_def)

lemma fold_predict_effect:
  assumes "distinct (map fst xs)" and "fst ` set xs \<subseteq> set (keys (kalman_filters e))"
  shows "same_frame e (fold predict_step xs e)
     \<and> tracks_rel (\<lambda>k t t'. if k \<in> fst ` set xs then predicted t t' else t' = t) e
          (fold predict_step xs e)"
  using assms
proof (induction xs arbitrary: e)
  case Nil
  show ?case by (simp add: tracks_rel_def)
next
  case (Cons x xs)
  obtain k kf where x: "x = (k, kf)" by (cases x)
  let ?e1 = "predict_step (k, kf) e"
  have kin: "k \<in> set (keys (kalman_filters e))" using Cons.prems(2) x by simp
  have f1: "same_frame e ?e1"
    and r1: "tracks_rel (\<lambda>k' t t'. if k' = k then predicted t t' else t' = t) e ?e1"
    using predict_step_effect [OF kin] by blast+
  have d: "distinct (map fst xs)" and kn: "k \<notin> fst ` set xs" using Cons.prems(1) x by auto
  have sub: "fst ` set xs \<subseteq> set (keys (kalman_filters ?e1))"
    using Cons.prems(2) f1 by (simp add: same_frame_def)
  from Cons.IH [OF d sub]
  have f2: "same_frame ?e1 (fold predict_step xs ?e1)"
    and r2: "tracks_rel (\<lambda>k t t'. if k \<in> fst ` set xs then predicted t t' else t' = t) ?e1
          (fold predict_step xs ?e1)"
    by blast+
  have "tracks_rel (\<lambda>k' t t'. if k' \<in> fst ` set (x # xs) then predicted t t' else t' = t) e
          (fold predict_step xs ?e1)"
    using r1 r2
  proof (rule tracks_rel_trans)
    fix k' a b c
    assume "if k' = k then predicted a b else b = a"
      and "if k' \<in> fst ` set xs then predicted b c else c = b"
    then show "if k' \<in> fst ` set (x # xs) then predicted a c else c = a"
      using kn x by (auto split: if_splits)
  qed
  then show ?case using same_frame_trans [OF f1 f2] x by simp
qed

lemma predict_all_effect:
  assumes "wf_engine e"
  shows "same_frame e (predict_all e)" and "tracks_rel (\<lambda>k. predicted) e (predict_all e)"
proof -
  have d: "distinct (map fst (kalman_filters e))"
    using assms by (simp add: wf_engine_def keys_def)
  have s: "fst ` set (kalman_filters e) \<subseteq> set (keys (kalman_filters e))"
    by (simp add: keys_def)
  from fold_predict_effect [OF d s]
  have f: "same_frame e (predict_all e)"
    and r: "tracks_rel (\<lambda>k t t'. if k \<in> fst ` set (kalman_filters e) then predicted t t'
                                 else t' = t) e (predict_all e)"
    by (simp_all add: predict_all_def)
  show "same_frame e (predict_all e)" by (rule f)
  show "tracks_rel (\<lambda>k. predicted) e (predict_all e)"
    unfolding tracks_rel_def
  proof (intro allI impI)
    fix k t assume m: "map_of (tracks e) k = Some t"
    then have "k \<in> set (keys (tracks e))" by (rule map_of_Some_keys)
    moreover have "set (keys (kalman_filters e)) = set (keys (tracks e))"
      using assms by (simp add: wf_engine_def)
    ultimately have "k \<in> set (keys (kalman_filters e))" by simp
    then have "k \<in> fst ` set (kalman_filters e)"
      by (simp add: keys_def)
    then have kin: "k \<in> fst ` set (kalman_filters e)" .
    from r m obtain t' where "map_of (tracks (predict_all e)) k = Some t'"
      and "if k \<in> fst ` set (kalman_filters e) then predicted t t' else t' = t"
      unfolding tracks_rel_def by blast
    with kin show "\<exists>t'. map_of (tracks (predict_all e)) k = Some t' \<and> predicted t t'"
      by simp
  qed
qed

lemma matched_loop_effect:
  assumes "for_loop (update_matched env dets) matched e = Inr e'"
  shows "same_frame e e'
     \<and> tracks_rel (\<lambda>k t t'. if k \<in> fst ` set matched then matched_upd t t' else t' = t) e e'"
  using assms
proof (induction matched arbitrary: e)
  case Nil
  then show ?case by (simp add: tracks_rel_def)
next
  case (Cons x xs)
  obtain k j where x: "x = (k, j)" by (cases x)
  from Cons.prems obtain e1 where s1: "update_matched env dets (k, j) e = Inr e1"
    and l: "for_loop (update_matched env dets) xs e1 = Inr e'"
    using x by (auto split: sum.splits)
  from update_matched_effect [OF s1]
  have f1: "same_frame e e1"
    and r1: "tracks_rel (\<lambda>k' t t'. if k' = k then matched_upd t t' else t' = t) e e1"
    by blast+
  from Cons.IH [OF l]
  have f2: "same_frame e1 e'"
    and r2: "tracks_rel (\<lambda>k t t'. if k \<in> fst ` set xs then matched_upd t t' else t' = t) e1 e'"
    by blast+
  have "tracks_rel (\<lambda>k' t t'. if k' \<in> fst ` set (x # xs) then matched_upd t t' else t' = t) e e'"
    using r1 r2
  proof (rule tracks_rel_trans)
    fix k' a b c
    assume "if k' = k then matched_upd a b else b = a"
      and "if k' \<in> fst ` set xs then matched_upd b c else c = b"
    then show "if k' \<in> fst ` set (x # xs) then matched_upd a c else c = a"
      using x by (auto split: if_splits intro: matched_upd_trans)
  qed
  then show ?case using same_frame_trans [OF f1 f2] by simp
qed

lemma handle_loop_effect:
  assumes "for_loop handle_unmatched ut e = Inr e'"
  shows "same_frame e e' \<and> kalman_filters e' = kalman_filters e
     \<and> tracks_rel (\<lambda>k t t'. if k \<in> set ut then handled (max_lost_frames (te_config e)) t t'
                              else t' = t) e e'"
  using assms
proof (induction ut arbitrary: e)
  case Nil
  then show ?case by (simp add: tracks_rel_def)
next
  case (Cons k ks)
  from Cons.prems obtain e1 where s1: "handle_unmatched k e = Inr e1"
    and l: "for_loop handle_unmatched ks e1 = Inr e'"
    by (auto split: sum.splits)
  from handle_unmatched_effect [OF s1]
  have f1: "same_frame e e1" and k1: "kalman_filters e1 = kalman_filters e"
    and r1: "tracks_rel (\<lambda>k' t t'. if k' = k then handled (max_lost_frames (te_config e)) t t'
                               else t' = t) e e1"
    by blast+
  have c: "te_config e1 = te_config e" using f1 by (simp add: same_frame_def)
  from Cons.IH [OF l, unfolded c]
  have f2: "same_frame e1 e'" and k2: "kalman_filters e' = kalman_filters e1"
    and r2: "tracks_rel (\<lambda>k t t'. if k \<in> set ks then handled (max_lost_frames (te_config e)) t t'
                              else t' = t) e1 e'"
    by blast+
  have "tracks_rel (\<lambda>k' t t'. if k' \<in> set (k # ks)
                                then handled (max_lost_frames (te_config e)) t t'
                                else t' = t) e e'"
    using r1 r2
  proof (rule tracks_rel_trans)
    fix k' a b c
    assume "if k' = k then handled (max_lost_frames (te_config e)) a b else b = a"
      and "if k' \<in> set ks then handled (max_lost_frames (te_config e)) b c else c = b"
    then show "if k' \<in> set (k # ks) then handled (max_lost_frames (te_config e)) a c else c = a"
      by (auto split: if_splits intro: handled_trans)
  qed
  then show ?case using same_frame_trans [OF f1 f2] k1 k2 by simp
qed

lemma wf_engine_fresh: "wf_engine e \<Longrightarrow> next_track_id e \<notin> set (keys (tracks e))"
  by (auto simp: wf_engine_def list_all_iff)

lemma create_step_wf:
  assumes "wf_engine e" and "create_unmatched env dets j e = Inr e'"
  shows "wf_engine e'"
proof -
  have n: "next_track_id e \<notin> set (keys (tracks e))" using assms(1) by (rule wf_engine_fresh)
  have ke: "keys (kalman_filters e) = keys (tracks e)" using assms(1) by (simp add: wf_engine_def)
  from create_unmatched_effect [OF assms(2)] n ke
  have k: "keys (tracks e') = keys (tracks e) @ [next_track_id e]"
    "keys (kalman_filters e') = keys (tracks e) @ [next_track_id e]"
    "next_track_id e' = next_track_id e + 1"
    by simp_all
  show ?thesis
    using assms(1) n k by (auto simp: wf_engine_def list_all_iff)
qed

lemma create_loop_effect:
  assumes "for_loop (create_unmatched env dets) ud e = Inr e'" and "wf_engine e"
  shows "wf_engine e' \<and> te_config e' = te_config e \<and> next_track_id e \<le> next_track_id e'
     \<and> (\<forall>k. map_of (tracks e) k \<noteq> None \<longrightarrow> map_of (tracks e') k = map_of (tracks e) k)
     \<and> (\<forall>k t'. map_of (tracks e) k = None \<longrightarrow> map_of (tracks e') k = Some t' \<longrightarrow> new_track t')"
  using assms
proof (induction ud arbitrary: e)
  case Nil
  then show ?case by simp
next
  case (Cons j js)
  from Cons.prems(1) obtain e1 where s1: "create_unmatched env dets j e = Inr e1"
    and l: "for_loop (create_unmatched env dets) js e1 = Inr e'"
    by (auto split: sum.splits)
  have w1: "wf_engine e1" using Cons.prems(2) s1 by (rule create_step_wf)
  have n: "next_track_id e \<notin> set (keys (tracks e))" using Cons.prems(2) by (rule wf_engine_fresh)
  then have none: "map_of (tracks e) (next_track_id e) = None" by (simp add: map_of_None_keys)
  from create_unmatched_effect [OF s1] obtain t where
    c1: "te_config e1 = te_config e" and n1: "next_track_id e1 = next_track_id e + 1"
    and t: "new_track t" and m1: "map_of (tracks e1) = (map_of (tracks e))(next_track_id e \<mapsto> t)"
    by blast
  from Cons.IH [OF l w1]
  have w': "wf_engine e'" and c2: "te_config e' = te_config e1"
    and n2: "next_track_id e1 \<le> next_track_id e'"
    and old: "\<forall>k. map_of (tracks e1) k \<noteq> None \<longrightarrow> map_of (tracks e') k = map_of (tracks e1) k"
    and new: "\<forall>k t'. map_of (tracks e1) k = None \<longrightarrow> map_of (tracks e') k = Some t' \<longrightarrow> new_track t'"
    by blast+
  have o: "\<forall>k. map_of (tracks e) k \<noteq> None \<longrightarrow> map_of (tracks e') k = map_of (tracks e) k"
  proof (intro allI impI)
    fix k assume a: "map_of (tracks e) k \<noteq> None"
    then have "k \<noteq> next_track_id e" using none by auto
    then have "map_of (tracks e1) k = map_of (tracks e) k" by (simp add: m1)
    with a old show "map_of (tracks e') k = map_of (tracks e) k" by simp
  qed
  have nw: "\<forall>k t'. map_of (tracks e) k = None \<longrightarrow> map_of (tracks e') k = Some t' \<longrightarrow> new_track t'"
  proof (intro allI impI)
    fix k t' assume a: "map_of (tracks e) k = None" and b: "map_of (tracks e') k = Some t'"
    show "new_track t'"
    proof (cases "k = next_track_id e")
      case True
      then have "map_of (tracks e1) k = Some t" by (simp add: m1)
      with old b have "t' = t" by simp
      with t show ?thesis by simp
    next
      case False
      then have "map_of (tracks e1) k = None" using a by (simp add: m1)
      with new b show ?thesis by blast
    qed
  qed
  show ?case using w' c1 c2 n1 n2 o nw by simp
qed

lemma filter_delete:
  "filter (\<lambda>item. fst item \<notin> set ks) (AList.delete k d)
     = filter (\<lambda>item. fst item \<notin> set (k # ks)) d"
  by (induction d) auto

lemma remove_loop_effect:
  assumes "for_loop remove_deleted ids e = Inr e'"
  shows "te_config e' = te_config e \<and> next_track_id e' = next_track_id e
     \<and> tracks e' = filter (\<lambda>item. fst item \<notin> set ids) (tracks e)
     \<and> kalman_filters e' = filter (\<lambda>item. fst item \<notin> set ids) (kalman_filters e)"
  using assms
proof (induction ids arbitrary: e)
  case Nil
  then show ?case by simp
next
  case (Cons k ks)
  from Cons.prems obtain e1 where s1: "remove_deleted k e = Inr e1"
    and l: "for_loop remove_deleted ks e1 = Inr e'"
    by (auto split: sum.splits)
  from remove_deleted_effect [OF s1] Cons.IH [OF l] show ?case
    by (simp add: filter_delete)
qed

lemma same_frame_wf: "wf_engine e \<Longrightarrow> same_frame e e' \<Longrightarrow> wf_engine e'"
  by (simp add: wf_engine_def same_frame_def)

lemma keys_filter: "keys (filter (\<lambda>item. P (fst item)) d) = filter P (keys d)"
  by (induction d) (auto simp: keys_def)

lemma filter_wf:
  assumes "wf_engine e" and "next_track_id e' = next_track_id e"
    and "tracks e' = filter (\<lambda>item. fst item \<notin> S) (tracks e)"
    and "kalman_filters e' = filter (\<lambda>item. fst item \<notin> S) (kalman_filters e)"
  shows "wf_engine e'"
proof -
  have k: "\<And>d :: (int \<times> 'x) list.
      keys (filter (\<lambda>item. fst item \<notin> S) d) = filter (\<lambda>k. k \<notin> S) (keys d)"
    by (rule keys_filter [where P = "\<lambda>k. k \<notin> S"])
  show ?thesis
    using assms by (auto simp: wf_engine_def k list_all_iff)
qed

lemma match_no_detections: "match env e [] = Inr ([], [], keys (tracks e))"
  by (simp add: match_def)

lemma match_unmatched_tracks:
  assumes "distinct (keys (tracks e))" and "env_ok env"
    and "match env e dets = Inr (matched, ud, ut)"
  shows "set ut = set (keys (tracks e)) - fst ` set matched"
  using match_spec [OF assms(1), of env dets] assms(2,3) by (auto simp: env_ok_def)

lemma update_phases:
  assumes "update env dets h e = Inr (active, e')"
  obtains matched ud ut e2 e3 e4 e5 where
    "match env (predict_all e) dets = Inr (matched, ud, ut)"
    "for_loop (update_matched env dets) matched (predict_all e) = Inr e2"
    "for_loop (create_unmatched env dets) ud e2 = Inr e3"
    "for_loop handle_unmatched ut e3 = Inr e4"
    "for_loop remove_deleted
       (map fst (filter (\<lambda>item. state (snd item) = DELETED) (tracks e4))) e4 = Inr e5"
    "active = map fst (filter (\<lambda>item. state (snd item) \<in> {CONFIRMED, LOST}) (tracks e5))"
    "e' = e5\<lparr>active_tracks := int (length active)\<rparr>"
  using assms
  by (auto simp: update_def Let_def split: sum.splits prod.splits)

lemma update_effect:
  assumes wf: "wf_engine e" and env: "env_ok env"
    and u: "update env dets h e = Inr (active, e')"
  shows "wf_engine e'" and "te_config e' = te_config e"
    and "\<And>k t'. map_of (tracks e') k = Some t' \<Longrightarrow>
           state t' \<noteq> DELETED
           \<and> (time_since_update t' \<le> max_lost_frames (te_config e) \<or> time_since_update t' = 0)
           \<and> (case map_of (tracks e) k of
                Some t \<Rightarrow> tracker_step t t'
                           \<and> (dets = [] \<longrightarrow> time_since_update t' = time_since_update t + 1)
              | None \<Rightarrow> new_track t')"
    and "\<And>k. k \<in> set active \<Longrightarrow>
           \<exists>t. map_of (tracks e') k = Some t \<and> state t \<in> {CONFIRMED, LOST}"
proof -
  let ?e1 = "predict_all e"
  from update_phases [OF u] obtain matched ud ut e2 e3 e4 e5 where
    m: "match env ?e1 dets = Inr (matched, ud, ut)"
    and l2: "for_loop (update_matched env dets) matched ?e1 = Inr e2"
    and l3: "for_loop (create_unmatched env dets) ud e2 = Inr e3"
    and l4: "for_loop handle_unmatched ut e3 = Inr e4"
    and l5: "for_loop remove_deleted
       (map fst (filter (\<lambda>item. state (snd item) = DELETED) (tracks e4))) e4 = Inr e5"
    and act: "active = map fst (filter (\<lambda>item. state (snd item) \<in> {CONFIRMED, LOST}) (tracks e5))"
    and e': "e' = e5\<lparr>active_tracks := int (length active)\<rparr>"
    by blast
  let ?del = "map fst (filter (\<lambda>item. state (snd item) = DELETED) (tracks e4))"
  have f1: "same_frame e ?e1" and r1: "tracks_rel (\<lambda>k. predicted) e ?e1"
    using predict_all_effect [OF wf] by blast+
  have w1: "wf_engine ?e1" using wf f1 by (rule same_frame_wf)
  have d1: "distinct (keys (tracks ?e1))" using w1 by (simp add: wf_engine_def)
  have ut: "set ut = set (keys (tracks ?e1)) - fst ` set matched"
    using d1 env m by (rule match_unmatched_tracks)
  have empty: "dets = [] \<Longrightarrow> matched = []"
    using m by (simp add: match_no_detections)
  have f2: "same_frame ?e1 e2"
    and r2: "tracks_rel (\<lambda>k t t'. if k \<in> fst ` set matched then matched_upd t t' else t' = t)
               ?e1 e2"
    using matched_loop_effect [OF l2] by blast+
  have w2: "wf_engine e2" using w1 f2 by (rule same_frame_wf)
  from create_loop_effect [OF l3 w2]
  have w3: "wf_engine e3" and c3: "te_config e3 = te_config e2"
    and old: "\<forall>k. map_of (tracks e2) k \<noteq> None \<longrightarrow> map_of (tracks e3) k = map_of (tracks e2) k"
    and new: "\<forall>k t'. map_of (tracks e2) k = None \<longrightarrow> map_of (tracks e3) k = Some t' \<longrightarrow> new_track t'"
    by blast+
  have cfg3: "te_config e3 = te_config e"
    using c3 f1 f2 by (simp add: same_frame_def)
  from handle_loop_effect [OF l4, unfolded cfg3]
  have f4: "same_frame e3 e4" and k4: "kalman_filters e4 = kalman_filters e3"
    and r4: "tracks_rel (\<lambda>k t t'. if k \<in> set ut then handled (max_lost_frames (te_config e)) t t'
                              else t' = t) e3 e4"
    by blast+
  have w4: "wf_engine e4" using w3 f4 by (rule same_frame_wf)
  from remove_loop_effect [OF l5]
  have c5: "te_config e5 = te_config e4" and n5: "next_track_id e5 = next_track_id e4"
    and t5: "tracks e5 = filter (\<lambda>item. fst item \<notin> set ?del) (tracks e4)"
    and k5: "kalman_filters e5 = filter (\<lambda>item. fst item \<notin> set ?del) (kalman_filters e4)"
    by blast+
  have w5: "wf_engine e5" using w4 n5 t5 k5 by (rule filter_wf)
  show "wf_engine e'" using w5 by (simp add: e' wf_engine_def)
  show "te_config e' = te_config e"
    using c5 f4 cfg3 by (simp add: e' same_frame_def)
  have d4: "distinct (map fst (tracks e4))" using w4 by (simp add: wf_engine_def keys_def)
  have d5: "distinct (map fst (tracks e5))" using w5 by (simp add: wf_engine_def keys_def)
  have surv: "\<And>k t'. map_of (tracks e5) k = Some t' \<Longrightarrow>
                 map_of (tracks e4) k = Some t' \<and> state t' \<noteq> DELETED"
  proof -
    fix k t' assume "map_of (tracks e5) k = Some t'"
    then have "(k, t') \<in> set (tracks e5)" by (rule map_of_SomeD)
    then have in4: "(k, t') \<in> set (tracks e4)" and nd: "k \<notin> set ?del" by (auto simp: t5)
    have "state t' \<noteq> DELETED"
    proof
      assume "state t' = DELETED"
      with in4 have "k \<in> set ?del" by force
      with nd show False by simp
    qed
    moreover have "map_of (tracks e4) k = Some t'" using d4 in4 by simp
    ultimately show "map_of (tracks e4) k = Some t' \<and> state t' \<noteq> DELETED" by simp
  qed
  show "\<And>k t'. map_of (tracks e') k = Some t' \<Longrightarrow>
           state t' \<noteq> DELETED
           \<and> (time_since_update t' \<le> max_lost_frames (te_config e) \<or> time_since_update t' = 0)
           \<and> (case map_of (tracks e) k of
                Some t \<Rightarrow> tracker_step t t'
                           \<and> (dets = [] \<longrightarrow> time_since_update t' = time_since_update t + 1)
              | None \<Rightarrow> new_track t')"
  proof -
    fix k t' assume "map_of (tracks e') k = Some t'"
    then have m5: "map_of (tracks e5) k = Some t'" by (simp add: e')
    from surv [OF m5] have m4: "map_of (tracks e4) k = Some t'" and nd: "state t' \<noteq> DELETED"
      by simp_all
    have k3: "k \<in> set (keys (tracks e3))"
      using m4 f4 by (auto simp: same_frame_def dest: map_of_Some_keys)
    then obtain t3 where m3: "map_of (tracks e3) k = Some t3"
      by (cases "map_of (tracks e3) k") (auto simp: map_of_None_keys)
    from r4 m3 m4 have h4: "if k \<in> set ut then handled (max_lost_frames (te_config e)) t3 t'
                           else t' = t3"
      unfolding tracks_rel_def by fastforce
    show "state t' \<noteq> DELETED
           \<and> (time_since_update t' \<le> max_lost_frames (te_config e) \<or> time_since_update t' = 0)
           \<and> (case map_of (tracks e) k of
                Some t \<Rightarrow> tracker_step t t'
                           \<and> (dets = [] \<longrightarrow> time_since_update t' = time_since_update t + 1)
              | None \<Rightarrow> new_track t')"
    proof (cases "map_of (tracks e) k")
      case None
      then have "k \<notin> set (keys (tracks ?e1))"
        using f1 by (simp add: same_frame_def map_of_None_keys)
      then have nut: "k \<notin> set ut" and "map_of (tracks e2) k = None"
        using ut f2 by (simp_all add: same_frame_def map_of_None_keys)
      with new m3 have "new_track t3" by blast
      moreover have "t' = t3" using h4 nut by simp
      ultimately show ?thesis using None nd by (simp add: new_track_def)
    next
      case (Some t)
      with r1 obtain t1 where m1: "map_of (tracks ?e1) k = Some t1" and p1: "predicted t t1"
        unfolding tracks_rel_def by blast
      from r2 m1 obtain t2 where m2: "map_of (tracks e2) k = Some t2"
        and p2: "if k \<in> fst ` set matched then matched_upd t1 t2 else t2 = t1"
        unfolding tracks_rel_def by blast
      have "map_of (tracks e3) k = Some t2" using old m2 by simp
      with m3 have t3: "t3 = t2" by simp
      have kin: "k \<in> set (keys (tracks ?e1))" using m1 by (rule map_of_Some_keys)
      show ?thesis
      proof (cases "k \<in> fst ` set matched")
        case True
        then have "k \<notin> set ut" using ut by simp
        with h4 t3 have "t' = t2" by simp
        moreover have "matched_upd t1 t2" using p2 True by simp
        moreover have "dets \<noteq> []" using True empty by auto
        ultimately show ?thesis using p1 Some nd
          by (auto simp: tracker_step_def predicted_def matched_upd_def same_plate_def)
      next
        case False
        then have "k \<in> set ut" using ut kin by simp
        with h4 t3 have "handled (max_lost_frames (te_config e)) t2 t'" by simp
        moreover have "t2 = t1" using p2 False by simp
        ultimately show ?thesis using p1 Some nd
          by (auto simp: tracker_step_def predicted_def handled_def same_plate_def)
      qed
    qed
  qed
  show "\<And>k. k \<in> set active \<Longrightarrow>
           \<exists>t. map_of (tracks e') k = Some t \<and> state t \<in> {CONFIRMED, LOST}"
  proof -
    fix k assume "k \<in> set active"
    then obtain t where "(k, t) \<in> set (tracks e5)" "state t \<in> {CONFIRMED, LOST}"
      by (auto simp: act)
    moreover from this have "map_of (tracks e5) k = Some t" using d5 by simp
    ultimately show "\<exists>t. map_of (tracks e') k = Some t \<and> state t \<in> {CONFIRMED, LOST}"
      by (auto simp: e')
  qed
qed

lemma update_tracks_live:
  assumes "wf_engine e" and "env_ok env" and "0 \<le> max_lost_frames (te_config e)"
    and "update env dets h e = Inr (active, e')"
  shows "list_all (\<lambda>item. time_since_update (snd item) \<le> max_lost_frames (te_config e')
                      \<and> state (snd item) \<noteq> DELETED) (tracks e')"
  unfolding list_all_iff
proof
  fix item assume i: "item \<in> set (tracks e')"
  have w: "wf_engine e'" and c: "te_config e' = te_config e"
    using update_effect(1,2) [OF assms(1,2,4)] by simp_all
  have "distinct (map fst (tracks e'))" using w by (simp add: wf_engine_def keys_def)
  with i have "map_of (tracks e') (fst item) = Some (snd item)" by simp
  from update_effect(3) [OF assms(1,2,4) this] assms(3) c
  show "time_since_update (snd item) \<le> max_lost_frames (te_config e')
          \<and> state (snd item) \<noteq> DELETED"
    by auto
qed

text \<open>
  Claim C7. After a call of the tracker's \<open>update\<close> that returns, every track still held
  has \<open>time_since_update \<le> max_lost_frames\<close> and is not in state Deleted, and the Kalman
  filters held are exactly those of the tracks held: a track beyond the limit was marked
  Deleted in this call and removed with its filter. (The tracker is in a state that
  \<open>update\<close> leaves it in, \<open>max_lost_frames\<close> is not negative, and \<open>list(s)\<close> enumerates the
  members of \<open>s\<close>.)
\<close>

theorem update_removes_lost_tracks:
  assumes "wf_engine e" and "env_ok env" and "0 \<le> max_lost_frames (te_config e)"
    and "update env dets h e = Inr (active, e')"
  shows "list_all (\<lambda>item. time_since_update (snd item) \<le> max_lost_frames (te_config e')
                      \<and> state (snd item) \<noteq> DELETED) (tracks e')
     \<and> keys (kalman_filters e') = keys (tracks e')
     \<and> distinct (keys (tracks e'))
     \<and> wf_engine e'"
proof -
  have w: "wf_engine e'" using update_effect(1) [OF assms(1,2,4)] .
  with update_tracks_live [OF assms] show ?thesis
    by (simp add: wf_engine_def)
qed

lemma ex_update_stale:
  "(case update example_env [] 720 stale_engine of
      Inl err \<Rightarrow> False
    | Inr r \<Rightarrow> fst r = [1] \<and> keys (tracks (snd r)) = [1] \<and> keys (kalman_filters (snd r)) = [1]
               \<and> map (\<lambda>item. (state (snd item), age (snd item), time_since_update (snd item)))
                    (tracks (snd r)) = [(LOST, 6, 1)])"
  by code_simp

lemma ex_env_ok: "env_ok example_env"
  by (simp add: env_ok_def example_env_def)

lemma ex_stale_wf: "wf_engine stale_engine"
  by (simp add: wf_engine_def stale_engine_def example_engine_def keys_def)

theorem update_removes_lost_tracks_witness:
  "wf_engine stale_engine \<and> env_ok example_env
   \<and> 0 \<le> max_lost_frames (te_config stale_engine)
   \<and> (case update example_env [] 720 stale_engine of
         Inl err \<Rightarrow> False
       | Inr r \<Rightarrow>
           keys (tracks (snd r)) = [1] \<and> keys (kalman_filters (snd r)) = [1]
           \<and> list_all (\<lambda>item. time_since_update (snd item) \<le> max_lost_frames (te_config (snd r))
                               \<and> state (snd item) \<noteq> DELETED) (tracks (snd r))
           \<and> wf_engine (snd r))"
proof -
  have m: "0 \<le> max_lost_frames (te_config stale_engine)"
    by (simp add: stale_engine_def example_engine_def example_config_def)
  obtain r where r: "update example_env [] 720 stale_engine = Inr r"
    and k: "keys (tracks (snd r)) = [1]" "keys (kalman_filters (snd r)) = [1]"
    using ex_update_stale by (cases "update example_env [] 720 stale_engine") auto
  then have u: "update example_env [] 720 stale_engine = Inr (fst r, snd r)" by simp
  from update_removes_lost_tracks [OF ex_stale_wf ex_env_ok m u]
  have "list_all (\<lambda>item. time_since_update (snd item) \<le> max_lost_frames (te_config (snd r))
                               \<and> state (snd item) \<noteq> DELETED) (tracks (snd r))
        \<and> wf_engine (snd r)"
    by simp
  with ex_stale_wf ex_env_ok m r k show ?thesis by simp
qed

end
